theory Spec2Isabelle
  imports Main "HOL-Library.Word"
begin

section \<open>Data model of thpool.cpp\<close>

text \<open>
  The C type \<open>int\<close> is a 32-bit two's complement value: \<open>+\<close> and \<open>-\<close> wrap around,
  \<open>sint\<close> reads the signed value, and the comparisons of the source (\<open><\<close>, \<open>>=\<close> on
  \<open>int\<close>) are written on \<open>sint\<close>. Pointers are addresses (\<open>nat\<close>) or \<open>None\<close> for NULL.
  A function pointer and a \<open>void*\<close> argument are opaque addresses.
\<close>

type_synonym cint = "32 word"
type_synonym addr = nat

text \<open>
  A call can end in three ways besides returning: \<open>exit(status)\<close> (after a diagnostic
  written by the \<open>err\<close> macro, which is \<open>fprintf(stderr, ...)\<close> in this build since
  \<open>THPOOL_DEBUG\<close> is always defined), a dereference of a NULL or unallocated pointer, and
  a loop that spins for ever.
\<close>

datatype failure = Exit cint | Segfault | Never_returns

text \<open>
  What a call wakes on the condition variable of a semaphore: nothing,
  \<open>pthread_cond_signal\<close> (one waiter) or \<open>pthread_cond_broadcast\<close> (every waiter).
\<close>

datatype wake = No_wake | Wake_one | Wake_all

text \<open>
  \<open>struct bsem\<close>. The mutex and the condition variable hold no data of their own; each
  function below runs between \<open>pthread_mutex_lock\<close> and \<open>pthread_mutex_unlock\<close> of the
  semaphore and is one atomic step on the record.
\<close>

record bsem =
  v :: cint
  mutex_inzed :: bool
  cond_inzed :: bool

section \<open>Synchronisation: the binary semaphore (LevelSignal)\<close>

text \<open>
  \<open>bsem_init(bsem_p, value)\<close>. The two booleans are the outcomes of
  \<open>pthread_mutex_init(...) == 0\<close> and \<open>pthread_cond_init(...) == 0\<close>.
\<close>

definition bsem_init :: "bool \<Rightarrow> bool \<Rightarrow> bsem \<Rightarrow> cint \<Rightarrow> failure + bsem" where
  "bsem_init mutex_ok cond_ok bsem_p value =
     (let b = bsem_p\<lparr>mutex_inzed := False, cond_inzed := False\<rparr> in
      if sint value < 0 \<or> 1 < sint value then Inl (Exit 1)
      else Inr (b\<lparr>mutex_inzed := mutex_ok, cond_inzed := cond_ok, v := value\<rparr>))"

text \<open>\<open>bsem_reset\<close>: destroys the condition variable and the mutex, then \<open>bsem_init(bsem_p, 0)\<close>.\<close>

definition bsem_reset :: "bool \<Rightarrow> bool \<Rightarrow> bsem \<Rightarrow> failure + bsem" where
  "bsem_reset mutex_ok cond_ok bsem_p = bsem_init mutex_ok cond_ok bsem_p 0"

definition bsem_post :: "bsem \<Rightarrow> bsem \<times> wake" where
  "bsem_post bsem_p = (bsem_p\<lparr>v := 1\<rparr>, Wake_one)"

definition bsem_post_all :: "bsem \<Rightarrow> bsem \<times> wake" where
  "bsem_post_all bsem_p = (bsem_p\<lparr>v := 1\<rparr>, Wake_all)"

text \<open>
  \<open>bsem_wait\<close>: \<open>while (bsem_p->v != 1) pthread_cond_wait(...)\<close>. While the caller sleeps
  in \<open>pthread_cond_wait\<close> the mutex is released and other threads change the semaphore;
  the list gives the state of the semaphore found at each return of \<open>pthread_cond_wait\<close>
  (any state at all: spurious wake-ups are returns that find the state as it was).
  When the list is used up the caller is never woken again: the call does not return,
  which is \<open>None\<close>.
\<close>

fun bsem_wait :: "bsem list \<Rightarrow> bsem \<Rightarrow> bsem option" where
  "bsem_wait [] bsem_p = (if v bsem_p \<noteq> 1 then None else Some bsem_p)"
| "bsem_wait (woken # env) bsem_p =
     (if v bsem_p \<noteq> 1 then bsem_wait env woken else Some bsem_p)"

section \<open>Synchronisation: the decrementing semaphore (CountdownSignal)\<close>

definition dec_bsem_init :: "bool \<Rightarrow> bool \<Rightarrow> bsem \<Rightarrow> cint \<Rightarrow> failure + bsem" where
  "dec_bsem_init mutex_ok cond_ok bsem_p value =
     (let b = bsem_p\<lparr>mutex_inzed := False, cond_inzed := False\<rparr> in
      if sint value < 0 then Inl (Exit 1)
      else Inr (b\<lparr>mutex_inzed := mutex_ok, cond_inzed := cond_ok, v := value\<rparr>))"

definition dec_bsem_post :: "bsem \<Rightarrow> bsem \<times> wake" where
  "dec_bsem_post bsem_p =
     (let b = bsem_p\<lparr>v := v bsem_p - 1\<rparr> in
      (b, if v b = 0 then Wake_one else No_wake))"

definition dec_bsem_post_all :: "bsem \<Rightarrow> bsem \<times> wake" where
  "dec_bsem_post_all bsem_p = (bsem_p\<lparr>v := v bsem_p - 1\<rparr>, Wake_all)"

text \<open>
  \<open>dec_bsem_wait\<close>: the loop \<open>while (bsem_p->v) pthread_cond_wait(...)\<close>, with the same
  reading of the list as in \<open>bsem_wait\<close>, followed by the store \<open>bsem_p->v = 0\<close>.
\<close>

fun dec_bsem_wait_loop :: "bsem list \<Rightarrow> bsem \<Rightarrow> bsem option" where
  "dec_bsem_wait_loop [] bsem_p = (if v bsem_p \<noteq> 0 then None else Some bsem_p)"
| "dec_bsem_wait_loop (woken # env) bsem_p =
     (if v bsem_p \<noteq> 0 then dec_bsem_wait_loop env woken else Some bsem_p)"

definition dec_bsem_wait :: "bsem list \<Rightarrow> bsem \<Rightarrow> bsem option" where
  "dec_bsem_wait env bsem_p =
     (case dec_bsem_wait_loop env bsem_p of
        None \<Rightarrow> None
      | Some b \<Rightarrow> Some (b\<lparr>v := 0\<rparr>))"

text \<open>\<open>p\<close> successive calls of \<open>dec_bsem_post\<close> on one semaphore.\<close>

fun dec_bsem_posts :: "nat \<Rightarrow> bsem \<Rightarrow> bsem" where
  "dec_bsem_posts 0 bsem_p = bsem_p"
| "dec_bsem_posts (Suc p) bsem_p = dec_bsem_posts p (fst (dec_bsem_post bsem_p))"

section \<open>The job queue\<close>

text \<open>
  \<open>struct job\<close>: \<open>prev\<close> links a job to the one pushed after it. Jobs live in the heap, a
  partial map from addresses to jobs; an address outside its domain is not allocated.
  The field \<open>function\<close> of the source is \<open>function_\<close> here.
\<close>

record job =
  prev :: "addr option"
  function_ :: addr
  arg :: addr
  signal_ :: "addr option"

type_synonym heap = "addr \<rightharpoonup> job"

text \<open>
  \<open>struct jobqueue\<close>. \<open>has_jobs\<close> points to a semaphore that \<open>jobqueue_init\<close> allocates and
  that nothing else refers to: the field holds the semaphore itself, or \<open>None\<close> for NULL.
  The functions below run between lock and unlock of \<open>rwmutex\<close>.
\<close>

record jobqueue =
  front :: "addr option"
  rear :: "addr option"
  has_jobs :: "bsem option"
  len :: cint
  rwmutex_inzed :: bool

text \<open>
  \<open>jobqueue_init\<close>. \<open>has_jobs_alloc\<close> is what \<open>malloc(sizeof(struct bsem))\<close> returns: NULL or
  a block with some contents; \<open>rwmutex_ok\<close> is \<open>pthread_mutex_init(...) == 0\<close>. The result
  is the returned \<open>int\<close> with the queue.
\<close>

definition jobqueue_init ::
  "bsem option \<Rightarrow> bool \<Rightarrow> bool \<Rightarrow> bool \<Rightarrow> jobqueue \<Rightarrow> failure + (cint \<times> jobqueue)" where
  "jobqueue_init has_jobs_alloc rwmutex_ok mutex_ok cond_ok jobqueue_p =
     (let q = jobqueue_p\<lparr>len := 0, front := None, rear := None, rwmutex_inzed := False,
                          has_jobs := has_jobs_alloc\<rparr> in
      case has_jobs q of
        None \<Rightarrow> Inr (- 1, q)
      | Some b \<Rightarrow>
          (case bsem_init mutex_ok cond_ok b 0 of
             Inl e \<Rightarrow> Inl e
           | Inr b' \<Rightarrow> Inr (0, q\<lparr>rwmutex_inzed := rwmutex_ok, has_jobs := Some b'\<rparr>)))"

text \<open>
  \<open>jobqueue_push\<close>: \<open>newjob->prev = NULL\<close>, the \<open>switch\<close> on \<open>len\<close> (\<open>case 0\<close> and
  \<open>default\<close>, which stores through \<open>rear\<close>), \<open>len++\<close> and \<open>bsem_post_all(has_jobs)\<close>.
\<close>

definition jobqueue_push :: "heap \<Rightarrow> jobqueue \<Rightarrow> addr \<Rightarrow> failure + (heap \<times> jobqueue)" where
  "jobqueue_push h jobqueue_p newjob =
     (case h newjob of
        None \<Rightarrow> Inl Segfault
      | Some j \<Rightarrow>
          (let h1 = h(newjob \<mapsto> j\<lparr>prev := None\<rparr>) in
           case (if len jobqueue_p = 0
                 then Inr (h1, jobqueue_p\<lparr>front := Some newjob, rear := Some newjob\<rparr>)
                 else (case rear jobqueue_p of
                         None \<Rightarrow> Inl Segfault
                       | Some r \<Rightarrow>
                           (case h1 r of
                              None \<Rightarrow> Inl Segfault
                            | Some rj \<Rightarrow>
                                Inr (h1(r \<mapsto> rj\<lparr>prev := Some newjob\<rparr>),
                                     jobqueue_p\<lparr>rear := Some newjob\<rparr>)))) of
             Inl e \<Rightarrow> Inl e
           | Inr (h2, q) \<Rightarrow>
               (case has_jobs q of
                  None \<Rightarrow> Inl Segfault
                | Some b \<Rightarrow>
                    Inr (h2, q\<lparr>len := len q + 1,
                                has_jobs := Some (fst (bsem_post_all b))\<rparr>))))"

text \<open>
  \<open>jobqueue_pull\<close>: \<open>job_p = front\<close>, the \<open>switch\<close> on \<open>len\<close> (\<open>case 0\<close>, \<open>case 1\<close> and
  \<open>default\<close>, which reads \<open>job_p->prev\<close>), then the repair of \<open>has_jobs\<close>: its value is set
  to 0 when \<open>len == 0\<close>, and \<open>bsem_post_all\<close> is called otherwise. The result is \<open>job_p\<close>
  with the queue; the heap is not written.
\<close>

definition jobqueue_pull :: "heap \<Rightarrow> jobqueue \<Rightarrow> failure + (addr option \<times> jobqueue)" where
  "jobqueue_pull h jobqueue_p =
     (let job_p = front jobqueue_p in
      case (if len jobqueue_p = 0 then Inr jobqueue_p
            else if len jobqueue_p = 1
            then Inr (jobqueue_p\<lparr>front := None, rear := None, len := 0\<rparr>)
            else (case job_p of
                    None \<Rightarrow> Inl Segfault
                  | Some a \<Rightarrow>
                      (case h a of
                         None \<Rightarrow> Inl Segfault
                       | Some j \<Rightarrow>
                           Inr (jobqueue_p\<lparr>front := prev j, len := len jobqueue_p - 1\<rparr>)))) of
        Inl e \<Rightarrow> Inl e
      | Inr q \<Rightarrow>
          (case has_jobs q of
             None \<Rightarrow> Inl Segfault
           | Some b \<Rightarrow>
               Inr (job_p,
                    q\<lparr>has_jobs :=
                        Some (if len q = 0 then b\<lparr>v := 0\<rparr> else fst (bsem_post_all b))\<rparr>)))"

subsection \<open>The sequence of jobs a queue holds\<close>

text \<open>
  \<open>chain h p xs\<close>: following \<open>prev\<close> from the pointer \<open>p\<close> visits exactly the addresses
  \<open>xs\<close>, all allocated, and ends at NULL.
\<close>

fun chain :: "heap \<Rightarrow> addr option \<Rightarrow> addr list \<Rightarrow> bool" where
  "chain h p [] = (p = None)"
| "chain h p (x # xs) =
     (p = Some x \<and> (case h x of None \<Rightarrow> False | Some j \<Rightarrow> chain h (prev j) xs))"

text \<open>
  A well-formed queue holding the jobs \<open>xs\<close>, front first: the links from \<open>front\<close> spell
  \<open>xs\<close>, no job is linked twice, \<open>len\<close> is the number of jobs (below \<open>INT_MAX\<close>),
  \<open>rear\<close> is the last job and \<open>has_jobs\<close> is allocated.
\<close>

definition jobqueue_inv :: "heap \<Rightarrow> jobqueue \<Rightarrow> addr list \<Rightarrow> bool" where
  "jobqueue_inv h q xs \<longleftrightarrow>
     chain h (front q) xs \<and> distinct xs \<and> unat (len q) = length xs \<and> length xs < 2 ^ 31
     \<and> rear q = (if xs = [] then None else Some (last xs)) \<and> has_jobs q \<noteq> None"

text \<open>
  The invariant of the specification on the signal of the queue: \<open>has_jobs\<close> has the value 1
  whenever \<open>len\<close> is above 0.
\<close>

definition has_jobs_inv :: "jobqueue \<Rightarrow> bool" where
  "has_jobs_inv q \<longleftrightarrow>
     (0 < sint (len q) \<longrightarrow> (case has_jobs q of None \<Rightarrow> False | Some b \<Rightarrow> v b = 1))"

text \<open>
  What the callers of the queue do, as a sequence of steps: \<open>Push a\<close> is
  \<open>jobqueue_push\<close> of the job at \<open>a\<close>, \<open>Pull\<close> is \<open>jobqueue_pull\<close>, \<open>Malloc a j\<close> allocates
  a job at \<open>a\<close> (as \<open>thpool_add_work\<close> does before it pushes) and \<open>Free a\<close> releases it
  (as \<open>thread_do\<close> does after it has run a pulled job). \<open>jobqueue_run\<close> performs the steps
  and collects what the pulls return.
\<close>

datatype step = Push addr | Pull | Malloc addr job | Free addr

fun jobqueue_run ::
  "step list \<Rightarrow> heap \<Rightarrow> jobqueue \<Rightarrow> failure + (addr option list \<times> heap \<times> jobqueue)" where
  "jobqueue_run [] h q = Inr ([], h, q)"
| "jobqueue_run (Push a # steps) h q =
     (case jobqueue_push h q a of
        Inl e \<Rightarrow> Inl e
      | Inr (h', q') \<Rightarrow> jobqueue_run steps h' q')"
| "jobqueue_run (Pull # steps) h q =
     (case jobqueue_pull h q of
        Inl e \<Rightarrow> Inl e
      | Inr (job_p, q') \<Rightarrow>
          (case jobqueue_run steps h q' of
             Inl e \<Rightarrow> Inl e
           | Inr (pulled, h', q'') \<Rightarrow> Inr (job_p # pulled, h', q'')))"
| "jobqueue_run (Malloc a j # steps) h q = jobqueue_run steps (h(a \<mapsto> j)) q"
| "jobqueue_run (Free a # steps) h q = jobqueue_run steps (h(a := None)) q"

text \<open>
  The steps a caller may take when the addresses \<open>A\<close> are allocated and the queue holds
  \<open>xs\<close>: a pushed job is allocated and not in the queue, and the queue stays shorter than
  \<open>INT_MAX\<close>; \<open>malloc\<close> returns an address that is not allocated; a freed job is
  allocated and not in the queue.
\<close>

fun steps_ok :: "addr set \<Rightarrow> step list \<Rightarrow> addr list \<Rightarrow> bool" where
  "steps_ok A [] xs = True"
| "steps_ok A (Push a # steps) xs =
     (a \<in> A \<and> a \<notin> set xs \<and> Suc (length xs) < 2 ^ 31 \<and> steps_ok A steps (xs @ [a]))"
| "steps_ok A (Pull # steps) xs = steps_ok A steps (tl xs)"
| "steps_ok A (Malloc a j # steps) xs = (a \<notin> A \<and> steps_ok (insert a A) steps xs)"
| "steps_ok A (Free a # steps) xs =
     (a \<in> A \<and> a \<notin> set xs \<and> steps_ok (A - {a}) steps xs)"

text \<open>
  The first-in first-out queue of the specification, on plain lists: what the pulls of a
  sequence of steps return from a queue holding \<open>xs\<close>, and what the queue holds afterwards.
\<close>

fun fifo_pulls :: "step list \<Rightarrow> addr list \<Rightarrow> addr option list" where
  "fifo_pulls [] xs = []"
| "fifo_pulls (Push a # steps) xs = fifo_pulls steps (xs @ [a])"
| "fifo_pulls (Pull # steps) [] = None # fifo_pulls steps []"
| "fifo_pulls (Pull # steps) (x # xs) = Some x # fifo_pulls steps xs"
| "fifo_pulls (Malloc a j # steps) xs = fifo_pulls steps xs"
| "fifo_pulls (Free a # steps) xs = fifo_pulls steps xs"

fun fifo_rest :: "step list \<Rightarrow> addr list \<Rightarrow> addr list" where
  "fifo_rest [] xs = xs"
| "fifo_rest (Push a # steps) xs = fifo_rest steps (xs @ [a])"
| "fifo_rest (Pull # steps) xs = fifo_rest steps (tl xs)"
| "fifo_rest (Malloc a j # steps) xs = fifo_rest steps xs"
| "fifo_rest (Free a # steps) xs = fifo_rest steps xs"

section \<open>The thread pool\<close>

text \<open>
  \<open>struct thread\<close> (the pthread handle and the pointer back to the pool hold nothing that
  the functions below read; the field \<open>id\<close> is \<open>id_\<close> here) and \<open>struct thpool_\<close>; its
  array \<open>threads\<close> is the list of the threads it points to.
\<close>

record thread =
  id_ :: cint

record thpool_ =
  threads :: "thread list"
  num_threads_alive :: cint
  num_threads_working :: cint
  jobqueue :: jobqueue
  threads_keepalive :: cint
  thcount_lock_inzed :: bool
  threads_all_idle_inzed :: bool

text \<open>
  What the platform answers during \<open>thpool_init\<close>: whether \<open>LINUX\<close> is defined, the count
  \<open>CPU_COUNT\<close> of the affinity mask read by \<open>sched_getaffinity\<close>, the value of
  \<open>sysconf(_SC_NPROCESSORS_ONLN)\<close>, what \<open>pthread_setaffinity_np\<close> returns, the block
  \<open>malloc\<close> returns for the pool and for \<open>has_jobs\<close> (NULL, or a block with some contents),
  whether \<open>malloc\<close> returns a block for the array of threads and for the thread of each id,
  whether each \<open>pthread_mutex_init\<close> and \<open>pthread_cond_init\<close> returns 0, and, for each
  successive read of \<open>num_threads_alive\<close> in the start-up loop, how many further threads
  have begun to run \<open>thread_do\<close> (each adds one to the counter when it begins).
\<close>

record os =
  linux :: bool
  cpu_count :: cint
  nprocessors_onln :: cint
  setaffinity_ret :: cint
  malloc_thpool :: "thpool_ option"
  malloc_has_jobs :: "bsem option"
  malloc_threads :: bool
  malloc_thread :: "cint \<Rightarrow> bool"
  rwmutex_init_ok :: bool
  has_jobs_mutex_init_ok :: bool
  has_jobs_cond_init_ok :: bool
  thcount_lock_init_ok :: bool
  threads_all_idle_init_ok :: bool
  begun :: "nat list"

definition nprocs :: "os \<Rightarrow> cint" where
  "nprocs os = (if linux os then cpu_count os else 1)"

text \<open>
  \<open>stick_this_thread_to_core\<close>: the returned \<open>int\<close> (\<open>EINVAL\<close> is 22) and the core the thread
  is bound to by \<open>pthread_setaffinity_np\<close>, when that call is made.
\<close>

definition stick_this_thread_to_core :: "os \<Rightarrow> cint \<Rightarrow> cint \<times> cint option" where
  "stick_this_thread_to_core os core_id =
     (if linux os then
        (let num_cores = nprocessors_onln os in
         if sint core_id < 0 \<or> sint num_cores \<le> sint core_id then (22, None)
         else (setaffinity_ret os, Some core_id))
      else (0, None))"

text \<open>
  The calls \<open>thread_init\<close> makes for the thread with a given id, in order; the second
  argument of \<open>Stick_this_thread_to_core\<close> is the core index passed for that thread.
\<close>

datatype call =
  Pthread_create cint | Stick_this_thread_to_core cint cint | Pthread_detach cint

text \<open>
  \<open>thread_init\<close>. The test after \<open>malloc\<close> is on \<open>thread_p\<close>, the address of the slot in the
  array, which is never NULL: when \<open>malloc\<close> returns NULL the next store goes through
  NULL. The result is the returned \<open>int\<close>, the thread and the calls made.
\<close>

definition thread_init :: "os \<Rightarrow> cint \<Rightarrow> cint \<Rightarrow> failure + (cint \<times> thread \<times> call list)" where
  "thread_init os thread_id preffed_cpu =
     (if \<not> malloc_thread os thread_id then Inl Segfault
      else Inr (0, \<lparr>id_ = thread_id\<rparr>,
                [Pthread_create thread_id]
                @ (if 0 \<le> sint preffed_cpu
                   then [Stick_this_thread_to_core thread_id preffed_cpu] else [])
                @ [Pthread_detach thread_id]))"

text \<open>
  The loop \<open>for (n=0; n<num_threads; n++)\<close> of \<open>thpool_init\<close>, from the values \<open>n\<close> and
  \<open>k\<close> of its two variables: \<open>thread_init(..., n, k)\<close>, then \<open>k++\<close> and
  \<open>if (k >= n_of_threads) k = 0\<close>. The result is the threads created, with the calls made.
\<close>

function thread_init_loop ::
  "os \<Rightarrow> cint \<Rightarrow> cint \<Rightarrow> cint \<Rightarrow> cint \<Rightarrow> failure + (thread list \<times> call list)" where
  "thread_init_loop os num_threads n_of_threads n k =
     (if sint n < sint num_threads then
        (case thread_init os n k of
           Inl e \<Rightarrow> Inl e
         | Inr (r, t, calls) \<Rightarrow>
             (case thread_init_loop os num_threads n_of_threads (n + 1)
                     (if sint n_of_threads \<le> sint (k + 1) then 0 else k + 1) of
                Inl e \<Rightarrow> Inl e
              | Inr (ts, calls') \<Rightarrow> Inr (t # ts, calls @ calls')))
      else Inr ([], []))"
  by pat_completeness auto
termination
proof (relation "measure (\<lambda>(os, num_threads, n_of_threads, n, k). nat (sint num_threads - sint n))")
  show "wf (measure (\<lambda>(os, num_threads, n_of_threads, n, k). nat (sint num_threads - sint n)))"
    by simp
next
  fix os :: os and num_threads n_of_threads n k :: cint
  assume less: "sint n < sint num_threads"
  have "sint num_threads < 2 ^ 31"
    using sint_lt [of num_threads] by simp
  moreover have "- (2 ^ 31) \<le> sint n"
    using sint_ge [of n] by simp
  ultimately have "sint (n + 1) = sint n + 1"
    using less by (simp add: sint_word_ariths signed_take_bit_int_eq_self)
  with less show "((os, num_threads, n_of_threads, n + 1,
        if sint n_of_threads \<le> sint (k + 1) then 0 else k + 1),
      (os, num_threads, n_of_threads, n, k))
    \<in> measure (\<lambda>(os, num_threads, n_of_threads, n, k). nat (sint num_threads - sint n))"
    by simp
qed

declare thread_init_loop.simps [simp del]

text \<open>
  The loop \<open>while (thpool_p->num_threads_alive != num_threads) {}\<close>. Before each read of
  the counter some of the created threads that have not begun yet begin (as many as the
  list says, at most those left) and each adds one to \<open>num_threads_alive\<close>; when the list
  is used up no further thread begins. \<open>None\<close>: the loop spins for ever.
\<close>

fun wait_threads_alive :: "nat list \<Rightarrow> nat \<Rightarrow> thpool_ \<Rightarrow> cint \<Rightarrow> thpool_ option" where
  "wait_threads_alive [] created thpool_p num_threads =
     (if num_threads_alive thpool_p \<noteq> num_threads then None else Some thpool_p)"
| "wait_threads_alive (b # bs) created thpool_p num_threads =
     (let p = thpool_p\<lparr>num_threads_alive :=
                num_threads_alive thpool_p
                + of_nat (min b (created - unat (num_threads_alive thpool_p)))\<rparr> in
      if num_threads_alive p \<noteq> num_threads then wait_threads_alive bs created p num_threads
      else Some p)"

text \<open>
  \<open>thpool_init\<close>. The result is the pool returned (\<open>None\<close> for NULL) with the calls made
  for the threads. On the two paths that return NULL after an allocation failure the
  blocks obtained so far are released and no thread has been created.
\<close>

definition thpool_init :: "os \<Rightarrow> cint \<Rightarrow> failure + (thpool_ option \<times> call list)" where
  "thpool_init os num_threads0 =
     (let num_threads = (if sint num_threads0 < 0 then 0 else num_threads0) in
      case malloc_thpool os of
        None \<Rightarrow> Inr (None, [])
      | Some block \<Rightarrow>
          (let p1 = block\<lparr>num_threads_alive := 0, num_threads_working := 0,
                          threads_keepalive := 1, thcount_lock_inzed := False,
                          threads_all_idle_inzed := False\<rparr> in
           case jobqueue_init (malloc_has_jobs os) (rwmutex_init_ok os)
                  (has_jobs_mutex_init_ok os) (has_jobs_cond_init_ok os) (jobqueue p1) of
             Inl e \<Rightarrow> Inl e
           | Inr (r, q) \<Rightarrow>
               if r = - 1 then Inr (None, [])
               else if \<not> malloc_threads os then Inr (None, [])
               else
                 (let p2 = p1\<lparr>jobqueue := q, threads := [],
                               thcount_lock_inzed := thcount_lock_init_ok os,
                               threads_all_idle_inzed := threads_all_idle_init_ok os\<rparr>;
                      n_of_threads = nprocs os in
                  case thread_init_loop os num_threads n_of_threads 0 0 of
                    Inl e \<Rightarrow> Inl e
                  | Inr (ts, calls) \<Rightarrow>
                      (case wait_threads_alive (begun os) (length ts) (p2\<lparr>threads := ts\<rparr>)
                              num_threads of
                         None \<Rightarrow> Inl Never_returns
                       | Some p \<Rightarrow> Inr (Some p, calls)))))"

text \<open>
  \<open>thpool_add_work\<close> and \<open>thpool_add_work_with_sem\<close>. \<open>newjob_alloc\<close> is what
  \<open>malloc(sizeof(struct job))\<close> returns: NULL, or the address of a block with its
  contents. The result is the returned \<open>int\<close> with the heap and the pool.
\<close>

definition thpool_add_work ::
  "(addr \<times> job) option \<Rightarrow> heap \<Rightarrow> thpool_ \<Rightarrow> addr \<Rightarrow> addr
   \<Rightarrow> failure + (cint \<times> heap \<times> thpool_)" where
  "thpool_add_work newjob_alloc h thpool_p function_p arg_p =
     (case newjob_alloc of
        None \<Rightarrow> Inr (- 1, h, thpool_p)
      | Some (newjob, block) \<Rightarrow>
          (let h1 = h(newjob \<mapsto> block\<lparr>function_ := function_p, arg := arg_p,
                                        signal_ := None\<rparr>) in
           case jobqueue_push h1 (jobqueue thpool_p) newjob of
             Inl e \<Rightarrow> Inl e
           | Inr (h2, q) \<Rightarrow> Inr (0, h2, thpool_p\<lparr>jobqueue := q\<rparr>)))"

definition thpool_add_work_with_sem ::
  "(addr \<times> job) option \<Rightarrow> heap \<Rightarrow> thpool_ \<Rightarrow> addr option \<Rightarrow> addr \<Rightarrow> addr
   \<Rightarrow> failure + (cint \<times> heap \<times> thpool_)" where
  "thpool_add_work_with_sem newjob_alloc h thpool_p signal_p function_p arg_p =
     (case newjob_alloc of
        None \<Rightarrow> Inr (- 1, h, thpool_p)
      | Some (newjob, block) \<Rightarrow>
          (let h0 = h(newjob \<mapsto> block) in
           case signal_p of
             None \<Rightarrow> Inr (- 2, h0, thpool_p)
           | Some s \<Rightarrow>
               (let h1 = h0(newjob \<mapsto> block\<lparr>function_ := function_p, arg := arg_p,
                                               signal_ := Some s\<rparr>) in
                case jobqueue_push h1 (jobqueue thpool_p) newjob of
                  Inl e \<Rightarrow> Inl e
                | Inr (h2, q) \<Rightarrow> Inr (0, h2, thpool_p\<lparr>jobqueue := q\<rparr>))))"

definition thpool_num_threads_working :: "thpool_ \<Rightarrow> cint" where
  "thpool_num_threads_working thpool_p = num_threads_working thpool_p"

text \<open>The thread id and core index of each \<open>Stick_this_thread_to_core\<close> call, in order.\<close>

fun assigned_cores :: "call list \<Rightarrow> (cint \<times> cint) list" where
  "assigned_cores [] = []"
| "assigned_cores (Stick_this_thread_to_core t c # calls) = (t, c) # assigned_cores calls"
| "assigned_cores (Pthread_create t # calls) = assigned_cores calls"
| "assigned_cores (Pthread_detach t # calls) = assigned_cores calls"

subsection \<open>A platform and a pool to run the functions on\<close>

text \<open>
  A Linux machine with two processors in the affinity mask, on which every allocation and
  every initialisation succeeds and the five threads of a pool begin in two batches; the
  blocks \<open>malloc\<close> returns hold arbitrary values. And a pool as \<open>thpool_init\<close> returns it for
  no thread, with an empty queue.
\<close>

abbreviation example_block :: thpool_ where
  "example_block \<equiv>
     \<lparr>threads = [\<lparr>id_ = 9\<rparr>], num_threads_alive = 7, num_threads_working = 8,
      jobqueue = \<lparr>front = Some 1, rear = Some 2, has_jobs = None, len = 3,
                  rwmutex_inzed = False\<rparr>,
      threads_keepalive = 0, thcount_lock_inzed = False, threads_all_idle_inzed = False\<rparr>"

abbreviation example_os :: os where
  "example_os \<equiv>
     \<lparr>linux = True, cpu_count = 2, nprocessors_onln = 4, setaffinity_ret = 0,
      malloc_thpool = Some example_block,
      malloc_has_jobs = Some \<lparr>v = 5, mutex_inzed = False, cond_inzed = False\<rparr>,
      malloc_threads = True, malloc_thread = (\<lambda>thread_id. True),
      rwmutex_init_ok = True, has_jobs_mutex_init_ok = True, has_jobs_cond_init_ok = True,
      thcount_lock_init_ok = True, threads_all_idle_init_ok = True, begun = [2, 3]\<rparr>"

abbreviation example_pool :: thpool_ where
  "example_pool \<equiv>
     \<lparr>threads = [], num_threads_alive = 0, num_threads_working = 0,
      jobqueue = \<lparr>front = None, rear = None,
                  has_jobs = Some \<lparr>v = 0, mutex_inzed = True, cond_inzed = True\<rparr>,
                  len = 0, rwmutex_inzed = True\<rparr>,
      threads_keepalive = 1, thcount_lock_inzed = True, threads_all_idle_inzed = True\<rparr>"

section \<open>Properties of the semaphores\<close>

text \<open>
  C10. \<open>bsem_post\<close> and \<open>bsem_post_all\<close> set the value to 1 whatever it was, and applying
  either of them twice leaves the same semaphore as applying it once.
\<close>

theorem bsem_post_idempotent:
  "v (fst (bsem_post b)) = 1 \<and> v (fst (bsem_post_all b)) = 1
   \<and> fst (bsem_post (fst (bsem_post b))) = fst (bsem_post b)
   \<and> fst (bsem_post_all (fst (bsem_post_all b))) = fst (bsem_post_all b)
   \<and> v (fst (bsem_post (fst (bsem_post b)))) = v (fst (bsem_post b))
   \<and> v (fst (bsem_post_all (fst (bsem_post_all b)))) = v (fst (bsem_post_all b))"
  by (simp add: bsem_post_def bsem_post_all_def)

subsection \<open>Reading a C int\<close>

lemma sint_cint_inject: "sint (x::cint) = sint y \<longleftrightarrow> x = y"
  by (auto intro: signed_word_eqI)

lemma cint_binary_iff: "\<not> (sint (x::cint) < 0 \<or> 1 < sint x) \<longleftrightarrow> x = 0 \<or> x = 1"
proof
  assume "\<not> (sint x < 0 \<or> 1 < sint x)"
  then have "sint x = sint (0::cint) \<or> sint x = sint (1::cint)" by auto
  then show "x = 0 \<or> x = 1" by (simp only: sint_cint_inject)
next
  assume "x = 0 \<or> x = 1"
  then show "\<not> (sint x < 0 \<or> 1 < sint x)" by auto
qed

lemma sint_sub_of_nat:
  assumes "- (2 ^ 31) \<le> sint (k::cint) - int p" and "sint k - int p < 2 ^ 31"
  shows "sint (k - of_nat p :: cint) = sint k - int p"
proof -
  have "k - of_nat p = (word_of_int (sint k - int p) :: cint)"
    by simp
  then have "sint (k - of_nat p) = signed_take_bit 31 (sint k - int p)"
    by (simp only: sint_sbintrunc') simp
  also have "\<dots> = sint k - int p"
    using assms by (intro signed_take_bit_int_eq_self) simp_all
  finally show ?thesis .
qed

lemma dec_bsem_posts_v: "v (dec_bsem_posts p b) = v b - of_nat p"
  by (induction p arbitrary: b) (simp_all add: dec_bsem_post_def Let_def)

lemma bsem_wait_find: "bsem_wait env b = find (\<lambda>s. v s = 1) (b # env)"
  by (induction env arbitrary: b) auto

lemma dec_bsem_wait_loop_find: "dec_bsem_wait_loop env b = find (\<lambda>s. v s = 0) (b # env)"
  by (induction env arbitrary: b) auto

lemma find_Some_member: "find P xs = Some x \<Longrightarrow> P x \<and> x \<in> set xs"
  by (induction xs) (auto split: if_splits)

text \<open>
  C5. \<open>bsem_init\<close> ends the process with \<open>exit(1)\<close> when the value is below 0 or above 1,
  \<open>dec_bsem_init\<close> when it is below 0; for every other value each returns, and the
  semaphore holds the value given (with the outcomes of the two pthread initialisations).
\<close>

theorem signal_init_validates:
  "(sint value < 0 \<or> 1 < sint value \<longrightarrow>
      bsem_init mutex_ok cond_ok b value = Inl (Exit 1))
   \<and> (\<not> (sint value < 0 \<or> 1 < sint value) \<longrightarrow>
      bsem_init mutex_ok cond_ok b value =
        Inr \<lparr>v = value, mutex_inzed = mutex_ok, cond_inzed = cond_ok\<rparr>)
   \<and> (sint value < 0 \<longrightarrow> dec_bsem_init mutex_ok cond_ok b value = Inl (Exit 1))
   \<and> (\<not> sint value < 0 \<longrightarrow>
      dec_bsem_init mutex_ok cond_ok b value =
        Inr \<lparr>v = value, mutex_inzed = mutex_ok, cond_inzed = cond_ok\<rparr>)"
  by (cases b) (simp add: bsem_init_def dec_bsem_init_def Let_def)

theorem signal_init_validates_witness:
  "bsem_init True True \<lparr>v = 7, mutex_inzed = False, cond_inzed = False\<rparr> 2 = Inl (Exit 1)
   \<and> bsem_init True True \<lparr>v = 7, mutex_inzed = False, cond_inzed = False\<rparr> (- 1) = Inl (Exit 1)
   \<and> bsem_init True True \<lparr>v = 7, mutex_inzed = False, cond_inzed = False\<rparr> 1 =
       Inr \<lparr>v = 1, mutex_inzed = True, cond_inzed = True\<rparr>
   \<and> dec_bsem_init True True \<lparr>v = 7, mutex_inzed = False, cond_inzed = False\<rparr> (- 1) =
       Inl (Exit 1)
   \<and> dec_bsem_init True True \<lparr>v = 7, mutex_inzed = False, cond_inzed = False\<rparr> 5 =
       Inr \<lparr>v = 5, mutex_inzed = True, cond_inzed = True\<rparr>"
  using
    signal_init_validates [of 2 True True "\<lparr>v = 7, mutex_inzed = False, cond_inzed = False\<rparr>"]
    signal_init_validates [of "- 1" True True "\<lparr>v = 7, mutex_inzed = False, cond_inzed = False\<rparr>"]
    signal_init_validates [of 1 True True "\<lparr>v = 7, mutex_inzed = False, cond_inzed = False\<rparr>"]
    signal_init_validates [of 5 True True "\<lparr>v = 7, mutex_inzed = False, cond_inzed = False\<rparr>"]
  by simp

text \<open>
  C3. \<open>dec_bsem_post\<close> subtracts exactly one from the counter at every call, whatever the
  counter is (at 0 it goes to -1: nothing clamps), and signals the condition variable
  exactly when the new counter is 0. After \<open>p\<close> posts the counter is the initial one minus
  \<open>p\<close> in 32-bit arithmetic; from a counter initialised to \<open>k\<close> and with \<open>p > k\<close> posts,
  \<open>k - p\<close> still an \<open>int\<close>, its signed value is \<open>k - p\<close>, a negative number.
\<close>

theorem dec_bsem_post_never_clamps:
  "v (fst (dec_bsem_post b)) = v b - 1
   \<and> snd (dec_bsem_post b) = (if v b - 1 = 0 then Wake_one else No_wake)
   \<and> v (dec_bsem_posts p b) = v b - of_nat p
   \<and> (dec_bsem_init mutex_ok cond_ok b0 k = Inr b \<and> sint k < int p \<and> int p \<le> sint k + 2 ^ 31
        \<longrightarrow> sint (v (dec_bsem_posts p b)) = sint k - int p
            \<and> sint (v (dec_bsem_posts p b)) < 0)"
proof -
  have one: "v (fst (dec_bsem_post b)) = v b - 1"
    by (simp add: dec_bsem_post_def Let_def)
  have wk: "snd (dec_bsem_post b) = (if v b - 1 = 0 then Wake_one else No_wake)"
    by (simp add: dec_bsem_post_def Let_def)
  have many: "v (dec_bsem_posts p b) = v b - of_nat p"
    by (rule dec_bsem_posts_v)
  have neg: "sint (v (dec_bsem_posts p b)) = sint k - int p
             \<and> sint (v (dec_bsem_posts p b)) < 0"
    if init: "dec_bsem_init mutex_ok cond_ok b0 k = Inr b"
      and over: "sint k < int p" and range: "int p \<le> sint k + 2 ^ 31"
  proof -
    from init have vb: "v b = k"
      by (auto simp: dec_bsem_init_def Let_def split: if_splits)
    have "sint k < 2 ^ 31"
      using sint_lt [of k] by simp
    then have "sint (k - of_nat p :: cint) = sint k - int p"
      using over range by (intro sint_sub_of_nat) simp_all
    with many vb over show ?thesis by simp
  qed
  from one wk many neg show ?thesis by blast
qed

theorem dec_bsem_post_never_clamps_witness:
  "dec_bsem_init True True \<lparr>v = 9, mutex_inzed = False, cond_inzed = False\<rparr> 2 =
     Inr \<lparr>v = 2, mutex_inzed = True, cond_inzed = True\<rparr>
   \<and> sint (v (dec_bsem_posts 5 \<lparr>v = 2, mutex_inzed = True, cond_inzed = True\<rparr>)) = - 3"
  using dec_bsem_post_never_clamps [of "\<lparr>v = 2, mutex_inzed = True, cond_inzed = True\<rparr>" 5
      True True "\<lparr>v = 9, mutex_inzed = False, cond_inzed = False\<rparr>" 2]
  by (simp add: dec_bsem_init_def)

text \<open>
  C4. When \<open>bsem_wait\<close> returns, the value is 1 and the semaphore is exactly the first
  state, among the one at the call and those found at the wake-ups, whose value is 1:
  \<open>bsem_wait\<close> stores nothing, so the value is the one that ended the loop and is never
  set to 0 by the wait. A semaphore whose value is already 1 makes it return at once.
\<close>

theorem bsem_wait_leaves_value:
  "(bsem_wait env b = Some b' \<longrightarrow>
       v b' = 1 \<and> b' \<in> set (b # env) \<and> find (\<lambda>s. v s = 1) (b # env) = Some b')
   \<and> (v b = 1 \<longrightarrow> bsem_wait env b = Some b)
   \<and> (bsem_wait env b = None \<longleftrightarrow> \<not> (\<exists>s \<in> set (b # env). v s = 1))"
proof -
  have ret: "v b' = 1 \<and> b' \<in> set (b # env) \<and> find (\<lambda>s. v s = 1) (b # env) = Some b'"
    if "bsem_wait env b = Some b'"
    using that find_Some_member [of "\<lambda>s. v s = 1" "b # env" b']
    by (simp only: bsem_wait_find)
  have now: "bsem_wait env b = Some b" if "v b = 1"
    using that by (cases env) simp_all
  have blocks: "bsem_wait env b = None \<longleftrightarrow> \<not> (\<exists>s \<in> set (b # env). v s = 1)"
    by (simp only: bsem_wait_find find_None_iff) blast
  from ret now blocks show ?thesis by blast
qed

theorem bsem_wait_leaves_value_witness:
  "bsem_wait [\<lparr>v = 0, mutex_inzed = True, cond_inzed = True\<rparr>,
              \<lparr>v = 1, mutex_inzed = True, cond_inzed = True\<rparr>,
              \<lparr>v = 0, mutex_inzed = True, cond_inzed = True\<rparr>]
             \<lparr>v = 0, mutex_inzed = True, cond_inzed = True\<rparr>
     = Some \<lparr>v = 1, mutex_inzed = True, cond_inzed = True\<rparr>
   \<and> v \<lparr>v = 1, mutex_inzed = True, cond_inzed = True\<rparr> = 1"
  using bsem_wait_leaves_value [of
      "[\<lparr>v = 0, mutex_inzed = True, cond_inzed = True\<rparr>,
        \<lparr>v = 1, mutex_inzed = True, cond_inzed = True\<rparr>,
        \<lparr>v = 0, mutex_inzed = True, cond_inzed = True\<rparr>]"
      "\<lparr>v = 0, mutex_inzed = True, cond_inzed = True\<rparr>"
      "\<lparr>v = 1, mutex_inzed = True, cond_inzed = True\<rparr>"]
  by simp

text \<open>
  C9. The loop of \<open>dec_bsem_wait\<close> is left only at a state whose counter is 0, and the
  function then stores 0: whenever \<open>dec_bsem_wait\<close> returns, the counter is 0 (and the
  rest of the semaphore is as the loop left it).
\<close>

theorem dec_bsem_wait_returns_zero:
  "(dec_bsem_wait_loop env b = Some b1 \<longrightarrow> v b1 = 0 \<and> b1 \<in> set (b # env))
   \<and> (dec_bsem_wait env b = Some b' \<longrightarrow>
         v b' = 0 \<and> (\<exists>b1. dec_bsem_wait_loop env b = Some b1 \<and> v b1 = 0 \<and> b' = b1\<lparr>v := 0\<rparr>))
   \<and> (v b = 0 \<longrightarrow> dec_bsem_wait env b = Some b)"
proof -
  have loop: "v b1 = 0 \<and> b1 \<in> set (b # env)" if "dec_bsem_wait_loop env b = Some b1" for b1
    using that find_Some_member [of "\<lambda>s. v s = 0" "b # env" b1]
    by (simp only: dec_bsem_wait_loop_find)
  have ret: "v b' = 0 \<and> (\<exists>b1. dec_bsem_wait_loop env b = Some b1 \<and> v b1 = 0 \<and> b' = b1\<lparr>v := 0\<rparr>)"
    if "dec_bsem_wait env b = Some b'"
    using that loop by (auto simp: dec_bsem_wait_def split: option.splits)
  have now: "dec_bsem_wait env b = Some b" if "v b = 0"
    using that by (cases env) (simp_all add: dec_bsem_wait_def)
  from loop ret now show ?thesis by blast
qed

theorem dec_bsem_wait_returns_zero_witness:
  "dec_bsem_wait [\<lparr>v = 1, mutex_inzed = True, cond_inzed = True\<rparr>,
                  \<lparr>v = 0, mutex_inzed = True, cond_inzed = True\<rparr>]
                 \<lparr>v = 2, mutex_inzed = True, cond_inzed = True\<rparr>
     = Some \<lparr>v = 0, mutex_inzed = True, cond_inzed = True\<rparr>
   \<and> dec_bsem_wait_loop [\<lparr>v = 1, mutex_inzed = True, cond_inzed = True\<rparr>,
                         \<lparr>v = 0, mutex_inzed = True, cond_inzed = True\<rparr>]
                        \<lparr>v = 2, mutex_inzed = True, cond_inzed = True\<rparr>
     = Some \<lparr>v = 0, mutex_inzed = True, cond_inzed = True\<rparr>"
  using dec_bsem_wait_returns_zero [of
      "[\<lparr>v = 1, mutex_inzed = True, cond_inzed = True\<rparr>,
        \<lparr>v = 0, mutex_inzed = True, cond_inzed = True\<rparr>]"
      "\<lparr>v = 2, mutex_inzed = True, cond_inzed = True\<rparr>"
      "\<lparr>v = 0, mutex_inzed = True, cond_inzed = True\<rparr>"
      "\<lparr>v = 0, mutex_inzed = True, cond_inzed = True\<rparr>"]
  by (simp add: dec_bsem_wait_def)

section \<open>Properties of the job queue\<close>

subsection \<open>Links and lengths\<close>

lemma chain_upd_other: "chain h p xs \<Longrightarrow> a \<notin> set xs \<Longrightarrow> chain (h(a := b)) p xs"
  by (induction xs arbitrary: p) (auto split: option.splits)

lemma chain_front: "chain h p xs \<Longrightarrow> p = (case xs of [] \<Rightarrow> None | x # _ \<Rightarrow> Some x)"
  by (cases xs) auto

lemma chain_append:
  "chain h p xs \<Longrightarrow> xs \<noteq> [] \<Longrightarrow> distinct xs \<Longrightarrow> a \<notin> set xs \<Longrightarrow>
   h (last xs) = Some rj \<Longrightarrow> h a = Some aj \<Longrightarrow> prev aj = None \<Longrightarrow>
   chain (h(last xs \<mapsto> rj\<lparr>prev := Some a\<rparr>)) p (xs @ [a])"
proof (induction xs arbitrary: p)
  case Nil
  then show ?case by simp
next
  case (Cons x xs)
  show ?case
  proof (cases "xs = []")
    case True
    with Cons.prems show ?thesis by (auto split: option.splits)
  next
    case False
    with Cons.prems obtain j where j: "h x = Some j" "chain h (prev j) xs"
      by (auto split: option.splits)
    from False Cons.prems have ne: "x \<noteq> last xs" by auto
    from False Cons.prems have facts: "distinct xs" "a \<notin> set xs" "h (last xs) = Some rj"
      by auto
    have step: "chain (h(last xs \<mapsto> rj\<lparr>prev := Some a\<rparr>)) (prev j) (xs @ [a])"
      by (rule Cons.IH [OF j(2) False facts Cons.prems(6,7)])
    have hx: "(h(last xs \<mapsto> rj\<lparr>prev := Some a\<rparr>)) x = Some j"
      using ne j(1) by simp
    have px: "p = Some x" using Cons.prems(1) by simp
    show ?thesis
      using step hx px False by (simp del: fun_upd_apply)
  qed
qed

lemma len_zero_iff: "unat (l::cint) = length xs \<Longrightarrow> l = 0 \<longleftrightarrow> xs = []"
  by (metis length_0_conv unat_eq_0)
lemma len_one_iff: "unat (l::cint) = length xs \<Longrightarrow> l = 1 \<longleftrightarrow> length xs = 1"
  by (metis unat_1 unsigned_word_eqI)
lemma len_succ: "unat (l::cint) = n \<Longrightarrow> Suc n < 2 ^ 31 \<Longrightarrow> unat (l + 1) = Suc n"
proof -
  assume a: "unat l = n" "Suc n < 2 ^ 31"
  have "unat l + unat (1::cint) < 2 ^ LENGTH(32)" using a by simp
  then have "unat (l + 1) = unat l + unat (1::cint)" by (simp only: unat_add_lem)
  with a show ?thesis by simp
qed
lemma len_pred: "unat (l::cint) = n \<Longrightarrow> l \<noteq> 0 \<Longrightarrow> unat (l - 1) = n - 1"
  by (simp add: unat_minus_one)


lemma chain_last_prev:
  "chain h p xs \<Longrightarrow> xs \<noteq> [] \<Longrightarrow> \<exists>j. h (last xs) = Some j \<and> prev j = None"
  by (induction xs arbitrary: p) (auto split: option.splits)

lemma jobqueue_push_inv:
  assumes inv: "jobqueue_inv h q xs" and alloc: "h a = Some j" and fresh: "a \<notin> set xs"
    and room: "Suc (length xs) < 2 ^ 31"
  shows "\<exists>h' q'. jobqueue_push h q a = Inr (h', q') \<and> jobqueue_inv h' q' (xs @ [a])
           \<and> dom h' = dom h \<and> h' a = Some (j\<lparr>prev := None\<rparr>)"
proof -
  let ?h1 = "h(a \<mapsto> j\<lparr>prev := None\<rparr>)"
  from inv obtain b where b: "has_jobs q = Some b"
    by (auto simp: jobqueue_inv_def)
  from inv have ch: "chain h (front q) xs" and dist: "distinct xs"
    and len: "unat (len q) = length xs"
    and rr: "rear q = (if xs = [] then None else Some (last xs))"
    by (simp_all add: jobqueue_inv_def)
  have ch1: "chain ?h1 (front q) xs"
    using ch fresh by (rule chain_upd_other)
  have len': "unat (len q + 1) = Suc (length xs)"
    using len room by (rule len_succ)
  show ?thesis
  proof (cases "xs = []")
    case True
    then have l0: "len q = 0" using len by (simp add: unat_eq_0)
    have "insert a (dom h) = dom h" using alloc by auto
    then show ?thesis
      using True l0 b len' room
      by (simp add: jobqueue_push_def alloc jobqueue_inv_def)
  next
    case False
    then have l0: "len q \<noteq> 0" using len len_zero_iff by blast
    from chain_last_prev [OF ch1 False] obtain rj where
      rj: "?h1 (last xs) = Some rj" "prev rj = None" by blast
    have ne: "last xs \<noteq> a" using False fresh by (metis last_in_set)
    have ha: "?h1 a = Some (j\<lparr>prev := None\<rparr>)" by simp
    have pa: "prev (j\<lparr>prev := None\<rparr>) = None" by simp
    have app: "chain (?h1(last xs \<mapsto> rj\<lparr>prev := Some a\<rparr>)) (front q) (xs @ [a])"
      by (rule chain_append [OF ch1 False dist fresh rj(1) ha pa])
    have d: "dom (?h1(last xs \<mapsto> rj\<lparr>prev := Some a\<rparr>)) = dom h"
      using rj(1) alloc ne by (auto split: if_splits)
    have push: "jobqueue_push h q a =
        Inr (?h1(last xs \<mapsto> rj\<lparr>prev := Some a\<rparr>),
             q\<lparr>rear := Some a, len := len q + 1, has_jobs := Some (fst (bsem_post_all b))\<rparr>)"
      using False l0 b rr rj(1) by (simp add: jobqueue_push_def alloc del: fun_upd_apply)
    show ?thesis
      unfolding push using app d len' room dist fresh ne
      by (simp add: jobqueue_inv_def del: fun_upd_apply) simp
  qed
qed

lemma jobqueue_pull_inv:
  assumes inv: "jobqueue_inv h q xs"
  shows "\<exists>q'. jobqueue_pull h q = Inr (case xs of [] \<Rightarrow> None | x # _ \<Rightarrow> Some x, q')
           \<and> jobqueue_inv h q' (tl xs)"
proof -
  from inv obtain b where b: "has_jobs q = Some b"
    by (auto simp: jobqueue_inv_def)
  from inv have ch: "chain h (front q) xs" and dist: "distinct xs"
    and len: "unat (len q) = length xs" and bound: "length xs < 2 ^ 31"
    and rr: "rear q = (if xs = [] then None else Some (last xs))"
    by (simp_all add: jobqueue_inv_def)
  consider (empty) "xs = []" | (one) x where "xs = [x]" | (more) x y ys where "xs = x # y # ys"
    by (cases xs rule: list.exhaust; cases "tl xs") auto
  then show ?thesis
  proof cases
    case empty
    then have "len q = 0" using len by (simp add: unat_eq_0)
    with empty ch b rr show ?thesis
      by (simp add: jobqueue_pull_def jobqueue_inv_def)
  next
    case one
    then have "len q = 1" using len len_one_iff [of "len q" xs] by simp
    with one ch b show ?thesis
      by (simp add: jobqueue_pull_def jobqueue_inv_def)
  next
    case more
    then have l0: "len q \<noteq> 0" and l1: "len q \<noteq> 1"
      using len len_zero_iff [of "len q" xs] len_one_iff [of "len q" xs] by auto
    from more ch obtain j where j: "front q = Some x" "h x = Some j" "chain h (prev j) (y # ys)"
      by (auto split: option.splits)
    have lp: "unat (len q - 1) = length (y # ys)"
      using len_pred [OF len l0] more by simp
    then have l2: "len q - 1 \<noteq> 0" by (metis length_0_conv list.distinct(1) unat_eq_0)
    show ?thesis
      using more l0 l1 l2 j b lp dist bound rr
      by (simp add: jobqueue_pull_def jobqueue_inv_def)
  qed
qed


lemma chain_allocated: "chain h p xs \<Longrightarrow> x \<in> set xs \<Longrightarrow> h x \<noteq> None"
  by (induction xs arbitrary: p) (auto split: option.splits)

lemma jobqueue_inv_upd_other:
  "jobqueue_inv h q xs \<Longrightarrow> a \<notin> set xs \<Longrightarrow> jobqueue_inv (h(a := b)) q xs"
  by (simp add: jobqueue_inv_def chain_upd_other)

lemma jobqueue_inv_allocated: "jobqueue_inv h q xs \<Longrightarrow> set xs \<subseteq> dom h"
  using chain_allocated by (fastforce simp: jobqueue_inv_def)

lemma jobqueue_run_fifo:
  "jobqueue_inv h q xs \<Longrightarrow> steps_ok (dom h) steps xs \<Longrightarrow>
   \<exists>h' q'. jobqueue_run steps h q = Inr (fifo_pulls steps xs, h', q')
     \<and> jobqueue_inv h' q' (fifo_rest steps xs)"
proof (induction steps arbitrary: h q xs)
  case Nil
  then show ?case by simp
next
  case (Cons s steps)
  show ?case
  proof (cases s)
    case (Push a)
    with Cons.prems obtain j where j: "h a = Some j" and fresh: "a \<notin> set xs"
      and room: "Suc (length xs) < 2 ^ 31" and rest: "steps_ok (dom h) steps (xs @ [a])"
      by auto
    from jobqueue_push_inv [OF Cons.prems(1) j fresh room] obtain h1 q1 where
      p: "jobqueue_push h q a = Inr (h1, q1)" "jobqueue_inv h1 q1 (xs @ [a])" "dom h1 = dom h"
      by blast
    from Cons.IH [OF p(2)] rest p(3) obtain h' q' where
      "jobqueue_run steps h1 q1 = Inr (fifo_pulls steps (xs @ [a]), h', q')"
      "jobqueue_inv h' q' (fifo_rest steps (xs @ [a]))"
      by auto
    with Push p(1) show ?thesis by simp
  next
    case Pull
    from jobqueue_pull_inv [OF Cons.prems(1)] obtain q1 where
      p: "jobqueue_pull h q = Inr (case xs of [] \<Rightarrow> None | x # _ \<Rightarrow> Some x, q1)"
        "jobqueue_inv h q1 (tl xs)"
      by blast
    from Cons.prems(2) Pull have "steps_ok (dom h) steps (tl xs)" by simp
    from Cons.IH [OF p(2) this] obtain h' q' where
      "jobqueue_run steps h q1 = Inr (fifo_pulls steps (tl xs), h', q')"
      "jobqueue_inv h' q' (fifo_rest steps (tl xs))"
      by blast
    with Pull p(1) show ?thesis by (cases xs) simp_all
  next
    case (Malloc a j)
    with Cons.prems(2) have na: "a \<notin> dom h" and rest: "steps_ok (insert a (dom h)) steps xs"
      by simp_all
    from na jobqueue_inv_allocated [OF Cons.prems(1)] have "a \<notin> set xs" by blast
    then have "jobqueue_inv (h(a \<mapsto> j)) q xs"
      using Cons.prems(1) by (simp add: jobqueue_inv_upd_other)
    moreover have "steps_ok (dom (h(a \<mapsto> j))) steps xs"
      using rest by simp
    ultimately obtain h' q' where
      "jobqueue_run steps (h(a \<mapsto> j)) q = Inr (fifo_pulls steps xs, h', q')"
      "jobqueue_inv h' q' (fifo_rest steps xs)"
      using Cons.IH by blast
    with Malloc show ?thesis by simp
  next
    case (Free a)
    with Cons.prems(2) have fresh: "a \<notin> set xs" and rest: "steps_ok (dom h - {a}) steps xs"
      by simp_all
    have "jobqueue_inv (h(a := None)) q xs"
      using Cons.prems(1) fresh by (rule jobqueue_inv_upd_other)
    moreover have "steps_ok (dom (h(a := None))) steps xs"
      using rest by simp
    ultimately obtain h' q' where
      "jobqueue_run steps (h(a := None)) q = Inr (fifo_pulls steps xs, h', q')"
      "jobqueue_inv h' q' (fifo_rest steps xs)"
      using Cons.IH by blast
    with Free show ?thesis by simp
  qed
qed

lemma steps_ok_pulls: "steps_ok A (replicate n Pull) xs"
  by (induction n arbitrary: xs) simp_all

lemma fifo_pulls_pulls: "fifo_pulls (replicate (length xs) Pull) xs = map Some xs"
  by (induction xs) simp_all

lemma fifo_rest_pulls: "fifo_rest (replicate (length xs) Pull) xs = []"
  by (induction xs) simp_all

lemma steps_ok_pushes:
  "set js \<subseteq> A \<Longrightarrow> distinct (xs @ js) \<Longrightarrow> length (xs @ js) < 2 ^ 31 \<Longrightarrow>
   steps_ok A (map Push js @ replicate n Pull) xs"
  by (induction js arbitrary: xs) (auto simp: steps_ok_pulls)

lemma fifo_pulls_after_pushes:
  "fifo_pulls (map Push js @ steps) xs = fifo_pulls steps (xs @ js)"
  by (induction js arbitrary: xs) simp_all

lemma fifo_rest_after_pushes:
  "fifo_rest (map Push js @ steps) xs = fifo_rest steps (xs @ js)"
  by (induction js arbitrary: xs) simp_all

lemma fifo_pulls_pushes:
  "fifo_pulls (map Push js @ replicate (length (xs @ js)) Pull) xs = map Some (xs @ js)"
  by (simp only: fifo_pulls_after_pushes fifo_pulls_pulls)

lemma fifo_rest_pushes:
  "fifo_rest (map Push js @ replicate (length (xs @ js)) Pull) xs = []"
  by (simp only: fifo_rest_after_pushes fifo_rest_pulls)

lemma jobqueue_init_inv:
  "jobqueue_init (Some g) rwmutex_ok mutex_ok cond_ok q0 = Inr (r, q) \<Longrightarrow>
   r = 0 \<and> jobqueue_inv h q [] \<and> len q = 0 \<and> (\<exists>b. has_jobs q = Some b \<and> v b = 0)"
  by (auto simp: jobqueue_init_def bsem_init_def Let_def jobqueue_inv_def split: if_splits)


text \<open>
  C1. The queue is first-in first-out. From a well-formed queue holding \<open>xs\<close>: every
  permitted interleaving of pushes, pulls, allocations and releases runs without fault, and
  its pulls return what the first-in first-out queue of the specification returns, NULL
  from an empty queue; in particular, pushing the jobs \<open>js\<close> and then pulling as many
  times as the queue holds jobs returns \<open>xs\<close> followed by \<open>js\<close>, in the order pushed. A
  pushed job becomes the rear (and the front stays the oldest job), and a pull returns the
  front and leaves the rest.
\<close>

theorem jobqueue_fifo:
  assumes inv: "jobqueue_inv h q xs"
  shows "(steps_ok (dom h) steps xs \<longrightarrow>
            (\<exists>h' q'. jobqueue_run steps h q = Inr (fifo_pulls steps xs, h', q')
               \<and> jobqueue_inv h' q' (fifo_rest steps xs)))
       \<and> (set js \<subseteq> dom h \<and> distinct (xs @ js) \<and> length (xs @ js) < 2 ^ 31 \<longrightarrow>
            (\<exists>h' q'. jobqueue_run (map Push js @ replicate (length (xs @ js)) Pull) h q =
                        Inr (map Some (xs @ js), h', q')
               \<and> jobqueue_inv h' q' []))
       \<and> (a \<in> dom h \<and> a \<notin> set xs \<and> Suc (length xs) < 2 ^ 31 \<longrightarrow>
            (\<exists>h' q'. jobqueue_push h q a = Inr (h', q') \<and> rear q' = Some a
               \<and> front q' = Some (hd (xs @ [a])) \<and> jobqueue_inv h' q' (xs @ [a])))
       \<and> (\<exists>q'. jobqueue_pull h q = Inr (case xs of [] \<Rightarrow> None | x # _ \<Rightarrow> Some x, q')
               \<and> jobqueue_inv h q' (tl xs))"
proof -
  have general: "\<exists>h' q'. jobqueue_run steps h q = Inr (fifo_pulls steps xs, h', q')
      \<and> jobqueue_inv h' q' (fifo_rest steps xs)"
    if "steps_ok (dom h) steps xs" for steps
    using inv that by (rule jobqueue_run_fifo)
  have batch: "\<exists>h' q'. jobqueue_run (map Push js @ replicate (length (xs @ js)) Pull) h q =
        Inr (map Some (xs @ js), h', q') \<and> jobqueue_inv h' q' []"
    if "set js \<subseteq> dom h \<and> distinct (xs @ js) \<and> length (xs @ js) < 2 ^ 31"
  proof -
    from that have "steps_ok (dom h) (map Push js @ replicate (length (xs @ js)) Pull) xs"
      by (intro steps_ok_pushes) simp_all
    from general [OF this] show ?thesis
      by (simp only: fifo_pulls_pushes fifo_rest_pushes)
  qed
  have push: "\<exists>h' q'. jobqueue_push h q a = Inr (h', q') \<and> rear q' = Some a
      \<and> front q' = Some (hd (xs @ [a])) \<and> jobqueue_inv h' q' (xs @ [a])"
    if "a \<in> dom h \<and> a \<notin> set xs \<and> Suc (length xs) < 2 ^ 31"
  proof -
    from that obtain j where j: "h a = Some j" by auto
    from jobqueue_push_inv [OF inv j] that obtain h' q' where
      p: "jobqueue_push h q a = Inr (h', q')" "jobqueue_inv h' q' (xs @ [a])"
      by blast
    from p(2) have "rear q' = Some a" "front q' = Some (hd (xs @ [a]))"
      by (auto simp: jobqueue_inv_def dest: chain_front split: list.splits)
    with p show ?thesis by blast
  qed
  from general batch push jobqueue_pull_inv [OF inv] show ?thesis by blast
qed

theorem jobqueue_fifo_witness:
  "jobqueue_init (Some \<lparr>v = 5, mutex_inzed = False, cond_inzed = False\<rparr>) True True True
      \<lparr>front = Some 3, rear = Some 4, has_jobs = None, len = 9, rwmutex_inzed = False\<rparr>
     = Inr (0, \<lparr>front = None, rear = None,
                 has_jobs = Some \<lparr>v = 0, mutex_inzed = True, cond_inzed = True\<rparr>,
                 len = 0, rwmutex_inzed = True\<rparr>)
   \<and> (\<exists>h' q'. jobqueue_run
         [Push 10, Push 11, Pull, Push 12, Pull, Free 10,
          Malloc 10 \<lparr>prev = Some 11, function_ = 100, arg = 200, signal_ = None\<rparr>,
          Push 10, Pull, Pull, Pull]
         [10 \<mapsto> \<lparr>prev = Some 7, function_ = 100, arg = 200, signal_ = None\<rparr>,
          11 \<mapsto> \<lparr>prev = Some 7, function_ = 101, arg = 201, signal_ = None\<rparr>,
          12 \<mapsto> \<lparr>prev = Some 7, function_ = 102, arg = 202, signal_ = None\<rparr>]
         \<lparr>front = None, rear = None,
          has_jobs = Some \<lparr>v = 0, mutex_inzed = True, cond_inzed = True\<rparr>,
          len = 0, rwmutex_inzed = True\<rparr>
       = Inr ([Some 10, Some 11, Some 12, Some 10, None], h', q'))
   \<and> (\<exists>h' q'. jobqueue_run (map Push [10, 11, 12] @ replicate 3 Pull)
         [10 \<mapsto> \<lparr>prev = Some 7, function_ = 100, arg = 200, signal_ = None\<rparr>,
          11 \<mapsto> \<lparr>prev = Some 7, function_ = 101, arg = 201, signal_ = None\<rparr>,
          12 \<mapsto> \<lparr>prev = Some 7, function_ = 102, arg = 202, signal_ = None\<rparr>]
         \<lparr>front = None, rear = None,
          has_jobs = Some \<lparr>v = 0, mutex_inzed = True, cond_inzed = True\<rparr>,
          len = 0, rwmutex_inzed = True\<rparr>
       = Inr ([Some 10, Some 11, Some 12], h', q'))
   \<and> (\<exists>h' q'. jobqueue_push
         [10 \<mapsto> \<lparr>prev = Some 7, function_ = 100, arg = 200, signal_ = None\<rparr>,
          11 \<mapsto> \<lparr>prev = Some 7, function_ = 101, arg = 201, signal_ = None\<rparr>,
          12 \<mapsto> \<lparr>prev = Some 7, function_ = 102, arg = 202, signal_ = None\<rparr>]
         \<lparr>front = None, rear = None,
          has_jobs = Some \<lparr>v = 0, mutex_inzed = True, cond_inzed = True\<rparr>,
          len = 0, rwmutex_inzed = True\<rparr> 10
       = Inr (h', q') \<and> rear q' = Some 10 \<and> front q' = Some 10)"
proof -
  let ?h = "[10 \<mapsto> \<lparr>prev = Some 7, function_ = 100, arg = 200, signal_ = None\<rparr>,
             11 \<mapsto> \<lparr>prev = Some 7, function_ = 101, arg = 201, signal_ = None\<rparr>,
             12 \<mapsto> \<lparr>prev = Some 7, function_ = 102, arg = 202, signal_ = None\<rparr>]
            :: heap"
  let ?q = "\<lparr>front = None, rear = None,
             has_jobs = Some \<lparr>v = 0, mutex_inzed = True, cond_inzed = True\<rparr>,
             len = 0, rwmutex_inzed = True\<rparr>"
  let ?steps = "[Push 10, Push 11, Pull, Push 12, Pull, Free 10,
                 Malloc 10 \<lparr>prev = Some 11, function_ = 100, arg = 200, signal_ = None\<rparr>,
                 Push 10, Pull, Pull, Pull]"
  have init: "jobqueue_init (Some \<lparr>v = 5, mutex_inzed = False, cond_inzed = False\<rparr>)
      True True True
      \<lparr>front = Some 3, rear = Some 4, has_jobs = None, len = 9, rwmutex_inzed = False\<rparr>
     = Inr (0, ?q)"
    by (simp add: jobqueue_init_def bsem_init_def)
  have inv: "jobqueue_inv ?h ?q []"
    by (simp add: jobqueue_inv_def)
  have ok: "steps_ok (dom ?h) ?steps []"
    by simp
  have batch: "set [10, 11, 12] \<subseteq> dom ?h \<and> distinct ([] @ [10, 11, 12 :: addr])
      \<and> length ([] @ [10, 11, 12 :: addr]) < 2 ^ 31"
    by simp
  have one: "10 \<in> dom ?h \<and> 10 \<notin> set ([] :: addr list) \<and> Suc (length ([] :: addr list)) < 2 ^ 31"
    by simp
  have pulls: "fifo_pulls ?steps [] = [Some 10, Some 11, Some 12, Some 10, None]"
    by simp
  have hd10: "hd ([] @ [10 :: addr]) = 10" "length ([] @ [10, 11, 12 :: addr]) = 3"
    "map Some ([] @ [10, 11, 12 :: addr]) = [Some 10, Some 11, Some 12]"
    by simp_all
  note fifo = jobqueue_fifo [OF inv, of ?steps "[10, 11, 12]" 10]
  from fifo ok have "\<exists>h' q'. jobqueue_run ?steps ?h ?q = Inr (fifo_pulls ?steps [], h', q')"
    by blast
  then have r1: "\<exists>h' q'. jobqueue_run ?steps ?h ?q
      = Inr ([Some 10, Some 11, Some 12, Some 10, None], h', q')"
    by (simp only: pulls)
  from fifo batch have "\<exists>h' q'.
      jobqueue_run (map Push [10, 11, 12] @ replicate (length ([] @ [10, 11, 12 :: addr])) Pull)
        ?h ?q = Inr (map Some ([] @ [10, 11, 12]), h', q')"
    by blast
  then have r2: "\<exists>h' q'. jobqueue_run (map Push [10, 11, 12] @ replicate 3 Pull) ?h ?q
      = Inr ([Some 10, Some 11, Some 12], h', q')"
    by (simp only: hd10)
  from fifo one have "\<exists>h' q'. jobqueue_push ?h ?q 10 = Inr (h', q') \<and> rear q' = Some 10
      \<and> front q' = Some (hd ([] @ [10]))"
    by blast
  then have r3: "\<exists>h' q'. jobqueue_push ?h ?q 10 = Inr (h', q') \<and> rear q' = Some 10
      \<and> front q' = Some 10"
    by (simp only: hd10)
  from init r1 r2 r3 show ?thesis by blast
qed


lemma jobqueue_pull_has_jobs:
  "jobqueue_pull h q = Inr (job_p, q') \<Longrightarrow>
   \<exists>b. has_jobs q' = Some b \<and> v b = (if len q' = 0 then 0 else 1)"
  by (auto simp: jobqueue_pull_def Let_def bsem_post_all_def split: if_splits option.splits)

lemma jobqueue_push_has_jobs:
  "jobqueue_push h q a = Inr (h', q') \<Longrightarrow> \<exists>b. has_jobs q' = Some b \<and> v b = 1"
  by (auto simp: jobqueue_push_def Let_def bsem_post_all_def split: if_splits option.splits)

text \<open>
  C2. Every \<open>jobqueue_pull\<close> repairs the signal: when it returns, \<open>has_jobs\<close> has the value
  0 if \<open>len\<close> is 0 and the value 1 otherwise; every \<open>jobqueue_push\<close> leaves the value 1.
  So after either of them the value is 1 whenever \<open>len\<close> is above 0. A pull that takes the
  value from 1 to 0 on a well-formed queue leaves the queue empty: the value goes to 0
  only at the pull after which no job is left.
\<close>

theorem jobqueue_pull_repairs_has_jobs:
  "(jobqueue_pull h q = Inr (job_p, q') \<longrightarrow>
      (\<exists>b. has_jobs q' = Some b \<and> v b = (if len q' = 0 then 0 else 1)) \<and> has_jobs_inv q')
   \<and> (jobqueue_push h q a = Inr (h'', q'') \<longrightarrow>
      (\<exists>b. has_jobs q'' = Some b \<and> v b = 1) \<and> has_jobs_inv q'')
   \<and> (jobqueue_inv h q xs \<and> has_jobs q = Some b0 \<and> v b0 = 1
        \<and> jobqueue_pull h q = Inr (job_p, q') \<and> has_jobs q' = Some b1 \<and> v b1 = 0 \<longrightarrow>
      len q' = 0 \<and> tl xs = [] \<and> jobqueue_inv h q' []
        \<and> job_p = (case xs of [] \<Rightarrow> None | x # _ \<Rightarrow> Some x))"
proof -
  have pull: "(\<exists>b. has_jobs q' = Some b \<and> v b = (if len q' = 0 then 0 else 1)) \<and> has_jobs_inv q'"
    if "jobqueue_pull h q = Inr (job_p, q')"
    using jobqueue_pull_has_jobs [OF that] by (auto simp: has_jobs_inv_def)
  have push: "(\<exists>b. has_jobs q'' = Some b \<and> v b = 1) \<and> has_jobs_inv q''"
    if "jobqueue_push h q a = Inr (h'', q'')"
    using jobqueue_push_has_jobs [OF that] by (auto simp: has_jobs_inv_def)
  have only: "len q' = 0 \<and> tl xs = [] \<and> jobqueue_inv h q' []
      \<and> job_p = (case xs of [] \<Rightarrow> None | x # _ \<Rightarrow> Some x)"
    if inv: "jobqueue_inv h q xs" and p: "jobqueue_pull h q = Inr (job_p, q')"
      and z: "has_jobs q' = Some b1" "v b1 = 0"
  proof -
    from jobqueue_pull_inv [OF inv] p have j: "job_p = (case xs of [] \<Rightarrow> None | x # _ \<Rightarrow> Some x)"
      and inv': "jobqueue_inv h q' (tl xs)"
      by auto
    from jobqueue_pull_has_jobs [OF p] z have l: "len q' = 0"
      by (auto split: if_splits)
    from inv' have "unat (len q') = length (tl xs)"
      by (simp only: jobqueue_inv_def)
    with l have "tl xs = []"
      using len_zero_iff by blast
    with j l inv' show ?thesis by simp
  qed
  from pull push only show ?thesis by blast
qed


theorem jobqueue_pull_repairs_has_jobs_witness:
  "jobqueue_inv [10 \<mapsto> \<lparr>prev = None, function_ = 100, arg = 200, signal_ = None\<rparr>,
                 11 \<mapsto> \<lparr>prev = Some 3, function_ = 101, arg = 201, signal_ = None\<rparr>]
      \<lparr>front = Some 10, rear = Some 10,
       has_jobs = Some \<lparr>v = 1, mutex_inzed = True, cond_inzed = True\<rparr>,
       len = 1, rwmutex_inzed = True\<rparr> [10]
   \<and> jobqueue_pull [10 \<mapsto> \<lparr>prev = None, function_ = 100, arg = 200, signal_ = None\<rparr>,
                    11 \<mapsto> \<lparr>prev = Some 3, function_ = 101, arg = 201, signal_ = None\<rparr>]
      \<lparr>front = Some 10, rear = Some 10,
       has_jobs = Some \<lparr>v = 1, mutex_inzed = True, cond_inzed = True\<rparr>,
       len = 1, rwmutex_inzed = True\<rparr>
     = Inr (Some 10,
            \<lparr>front = None, rear = None,
             has_jobs = Some \<lparr>v = 0, mutex_inzed = True, cond_inzed = True\<rparr>,
             len = 0, rwmutex_inzed = True\<rparr>)
   \<and> has_jobs_inv \<lparr>front = None, rear = None,
       has_jobs = Some \<lparr>v = 0, mutex_inzed = True, cond_inzed = True\<rparr>,
       len = 0, rwmutex_inzed = True\<rparr>
   \<and> (\<exists>h'. jobqueue_push
                   [10 \<mapsto> \<lparr>prev = None, function_ = 100, arg = 200, signal_ = None\<rparr>,
                    11 \<mapsto> \<lparr>prev = Some 3, function_ = 101, arg = 201, signal_ = None\<rparr>]
      \<lparr>front = Some 10, rear = Some 10,
       has_jobs = Some \<lparr>v = 1, mutex_inzed = True, cond_inzed = True\<rparr>,
       len = 1, rwmutex_inzed = True\<rparr> 11
     = Inr (h',
            \<lparr>front = Some 10, rear = Some 11,
             has_jobs = Some \<lparr>v = 1, mutex_inzed = True, cond_inzed = True\<rparr>,
             len = 2, rwmutex_inzed = True\<rparr>))
   \<and> has_jobs_inv \<lparr>front = Some 10, rear = Some 11,
       has_jobs = Some \<lparr>v = 1, mutex_inzed = True, cond_inzed = True\<rparr>,
       len = 2, rwmutex_inzed = True\<rparr>"
proof -
  let ?h = "[10 \<mapsto> \<lparr>prev = None, function_ = 100, arg = 200, signal_ = None\<rparr>,
             11 \<mapsto> \<lparr>prev = Some 3, function_ = 101, arg = 201, signal_ = None\<rparr>] :: heap"
  let ?bzero = "\<lparr>v = 0, mutex_inzed = True, cond_inzed = True\<rparr>"
  let ?bone = "\<lparr>v = 1, mutex_inzed = True, cond_inzed = True\<rparr>"
  let ?q = "\<lparr>front = Some 10, rear = Some 10, has_jobs = Some ?bone, len = 1,
             rwmutex_inzed = True\<rparr>"
  let ?qempty = "\<lparr>front = None, rear = None, has_jobs = Some ?bzero, len = 0, rwmutex_inzed = True\<rparr>"
  let ?qtwo = "\<lparr>front = Some 10, rear = Some 11, has_jobs = Some ?bone, len = 2,
              rwmutex_inzed = True\<rparr>"
  have inv: "jobqueue_inv ?h ?q [10]"
    by (simp add: jobqueue_inv_def)
  have pull: "jobqueue_pull ?h ?q = Inr (Some 10, ?qempty)"
    by (simp add: jobqueue_pull_def)
  have "\<exists>h'. jobqueue_push ?h ?q 11 = Inr (h', ?qtwo)"
    by (simp add: jobqueue_push_def bsem_post_all_def)
  then obtain h' where push: "jobqueue_push ?h ?q 11 = Inr (h', ?qtwo)" ..
  have vals: "has_jobs ?q = Some ?bone" "v ?bone = 1" "has_jobs ?qempty = Some ?bzero" "v ?bzero = 0"
    by simp_all
  from jobqueue_pull_repairs_has_jobs [of ?h ?q "Some 10" ?qempty 11 h' ?qtwo "[10]" ?bone ?bzero]
    inv pull push vals
  have "has_jobs_inv ?qempty" "has_jobs_inv ?qtwo"
    by blast+
  with inv pull push show ?thesis by blast
qed


section \<open>Properties of the thread pool\<close>

text \<open>
  C6, as the code has it. \<open>thpool_add_work_with_sem\<close> tests the allocation before the
  signal. On a well-formed queue with room for one more job: it returns -1 when the
  allocation fails (whatever the signal is), and the heap and the pool are unchanged; it
  returns -2 when the allocation succeeded and the signal is NULL, and the pool and the jobs
  of the queue are unchanged; otherwise it returns 0, and the queue holds exactly one more
  job, at the rear, with the function, the argument and the signal given.
\<close>

theorem thpool_add_work_with_sem_results:
  assumes inv: "jobqueue_inv h (jobqueue p) xs" and room: "Suc (length xs) < 2 ^ 31"
  shows "(newjob_alloc = None \<longrightarrow>
            thpool_add_work_with_sem newjob_alloc h p signal_p function_p arg_p = Inr (- 1, h, p))
       \<and> (newjob_alloc = Some (a, block) \<and> h a = None \<and> signal_p = None \<longrightarrow>
            thpool_add_work_with_sem newjob_alloc h p signal_p function_p arg_p
              = Inr (- 2, h(a \<mapsto> block), p)
            \<and> jobqueue_inv (h(a \<mapsto> block)) (jobqueue p) xs)
       \<and> (newjob_alloc = Some (a, block) \<and> h a = None \<and> signal_p = Some s \<longrightarrow>
            (\<exists>h' p'. thpool_add_work_with_sem newjob_alloc h p signal_p function_p arg_p
                = Inr (0, h', p')
              \<and> jobqueue_inv h' (jobqueue p') (xs @ [a])
              \<and> p' = p\<lparr>jobqueue := jobqueue p'\<rparr>
              \<and> h' a = Some \<lparr>prev = None, function_ = function_p, arg = arg_p,
                               signal_ = Some s\<rparr>))"
proof -
  have fail: "thpool_add_work_with_sem None h p signal_p function_p arg_p = Inr (- 1, h, p)"
    by (simp add: thpool_add_work_with_sem_def)
  have fresh: "a \<notin> set xs" if "h a = None"
    using jobqueue_inv_allocated [OF inv] that by blast
  have null: "thpool_add_work_with_sem (Some (a, block)) h p None function_p arg_p
      = Inr (- 2, h(a \<mapsto> block), p)
      \<and> jobqueue_inv (h(a \<mapsto> block)) (jobqueue p) xs"
    if "h a = None"
    using jobqueue_inv_upd_other [OF inv fresh [OF that]]
    by (simp add: thpool_add_work_with_sem_def)
  have ok: "\<exists>h' p'. thpool_add_work_with_sem (Some (a, block)) h p (Some s) function_p arg_p
        = Inr (0, h', p')
      \<and> jobqueue_inv h' (jobqueue p') (xs @ [a])
      \<and> p' = p\<lparr>jobqueue := jobqueue p'\<rparr>
      \<and> h' a = Some \<lparr>prev = None, function_ = function_p, arg = arg_p, signal_ = Some s\<rparr>"
    if free: "h a = None"
  proof -
    let ?j = "block\<lparr>function_ := function_p, arg := arg_p, signal_ := Some s\<rparr>"
    let ?h1 = "h(a \<mapsto> ?j)"
    have inv1: "jobqueue_inv ?h1 (jobqueue p) xs"
      using inv fresh [OF free] by (rule jobqueue_inv_upd_other)
    have at: "?h1 a = Some ?j" by simp
    from jobqueue_push_inv [OF inv1 at fresh [OF free] room] obtain h' q' where
      push: "jobqueue_push ?h1 (jobqueue p) a = Inr (h', q')"
      and inv': "jobqueue_inv h' q' (xs @ [a])"
      and job: "h' a = Some (?j\<lparr>prev := None\<rparr>)"
      by blast
    have "?j\<lparr>prev := None\<rparr>
        = \<lparr>prev = None, function_ = function_p, arg = arg_p, signal_ = Some s\<rparr>"
      by (cases block) simp
    with push inv' job show ?thesis
      by (simp add: thpool_add_work_with_sem_def)
  qed
  from fail null ok show ?thesis by blast
qed


theorem thpool_add_work_with_sem_results_witness:
  "thpool_add_work_with_sem None Map.empty example_pool (Some 77) 100 200
     = Inr (- 1, Map.empty, example_pool)
   \<and> thpool_add_work_with_sem
       (Some (10, \<lparr>prev = Some 4, function_ = 5, arg = 6, signal_ = Some 7\<rparr>))
       Map.empty example_pool None 100 200
     = Inr (- 2, [10 \<mapsto> \<lparr>prev = Some 4, function_ = 5, arg = 6, signal_ = Some 7\<rparr>],
            example_pool)
   \<and> (\<exists>h' p'. thpool_add_work_with_sem
         (Some (10, \<lparr>prev = Some 4, function_ = 5, arg = 6, signal_ = Some 7\<rparr>))
         Map.empty example_pool (Some 77) 100 200
       = Inr (0, h', p')
       \<and> jobqueue_inv h' (jobqueue p') [10]
       \<and> h' 10 = Some \<lparr>prev = None, function_ = 100, arg = 200, signal_ = Some 77\<rparr>)"
proof -
  have inv: "jobqueue_inv Map.empty (jobqueue example_pool) []"
    by (simp add: jobqueue_inv_def)
  have room: "Suc (length ([] :: addr list)) < 2 ^ 31"
    by simp
  note r = thpool_add_work_with_sem_results [OF inv room]
  from r [where newjob_alloc = None and signal_p = "Some 77" and function_p = 100
      and arg_p = 200]
  have a: "thpool_add_work_with_sem None Map.empty example_pool (Some 77) 100 200
     = Inr (- 1, Map.empty, example_pool)"
    by blast
  from r [where newjob_alloc
        = "Some (10, \<lparr>prev = Some 4, function_ = 5, arg = 6, signal_ = Some 7\<rparr>)"
      and a = 10 and block = "\<lparr>prev = Some 4, function_ = 5, arg = 6, signal_ = Some 7\<rparr>"
      and signal_p = None and function_p = 100 and arg_p = 200]
  have b: "thpool_add_work_with_sem
       (Some (10, \<lparr>prev = Some 4, function_ = 5, arg = 6, signal_ = Some 7\<rparr>))
       Map.empty example_pool None 100 200
     = Inr (- 2, [10 \<mapsto> \<lparr>prev = Some 4, function_ = 5, arg = 6, signal_ = Some 7\<rparr>],
            example_pool)"
    by simp
  from r [where newjob_alloc
        = "Some (10, \<lparr>prev = Some 4, function_ = 5, arg = 6, signal_ = Some 7\<rparr>)"
      and a = 10 and block = "\<lparr>prev = Some 4, function_ = 5, arg = 6, signal_ = Some 7\<rparr>"
      and signal_p = "Some 77" and function_p = 100 and arg_p = 200 and s = 77]
  have c: "\<exists>h' p'. thpool_add_work_with_sem
         (Some (10, \<lparr>prev = Some 4, function_ = 5, arg = 6, signal_ = Some 7\<rparr>))
         Map.empty example_pool (Some 77) 100 200
       = Inr (0, h', p')
       \<and> jobqueue_inv h' (jobqueue p') [10]
       \<and> h' 10 = Some \<lparr>prev = None, function_ = 100, arg = 200, signal_ = Some 77\<rparr>"
    by simp blast
  from a b c show ?thesis by blast
qed

text \<open>
  C6 in the words of the specification has \<open>thpool_add_work_with_sem\<close> return -2
  whenever the signal is NULL. When the allocation fails as well, the code returns -1.
\<close>

theorem thpool_add_work_with_sem_null_signal_counterexample:
  "thpool_add_work_with_sem None Map.empty example_pool None 100 200
     = Inr (- 1, Map.empty, example_pool)
   \<and> thpool_add_work_with_sem None Map.empty example_pool None 100 200
     \<noteq> Inr (- 2, Map.empty, example_pool)"
  by (simp add: thpool_add_work_with_sem_def)


subsection \<open>Creating the pool\<close>

lemma wait_threads_alive_none:
  "num_threads_alive p = 0 \<Longrightarrow> wait_threads_alive bs 0 p 0 = Some p"
  by (cases bs) simp_all

lemma thread_init_loop_done:
  "\<not> sint n < sint num_threads \<Longrightarrow> thread_init_loop os num_threads n_of_threads n k = Inr ([], [])"
  by (simp add: thread_init_loop.simps)

text \<open>
  C7. \<open>thpool_init\<close> with a negative number of threads is \<open>thpool_init\<close> with 0, whatever
  the platform answers. With no thread asked for (0 or a negative number) and the three
  allocations successful, it returns a pool: no thread, no thread alive or working, and
  an empty, well-formed queue.
\<close>

theorem thpool_init_negative_as_zero:
  "(sint n < 0 \<longrightarrow> thpool_init os n = thpool_init os 0)
   \<and> (sint n \<le> 0 \<and> malloc_thpool os = Some block \<and> malloc_has_jobs os = Some sem
        \<and> malloc_threads os \<longrightarrow>
        (\<exists>p. thpool_init os n = Inr (Some p, [])
           \<and> threads p = [] \<and> num_threads_alive p = 0 \<and> num_threads_working p = 0
           \<and> threads_keepalive p = 1
           \<and> front (jobqueue p) = None \<and> rear (jobqueue p) = None \<and> len (jobqueue p) = 0
           \<and> jobqueue_inv h (jobqueue p) []))
   \<and> (malloc_thpool os = None \<or> malloc_has_jobs os = None \<or> \<not> malloc_threads os \<longrightarrow>
        thpool_init os n = Inr (None, []))"
proof -
  have null: "thpool_init os n = Inr (None, [])"
    if "malloc_thpool os = None \<or> malloc_has_jobs os = None \<or> \<not> malloc_threads os"
    using that
    by (auto simp: thpool_init_def jobqueue_init_def bsem_init_def Let_def
        split: option.splits)
  have neg: "thpool_init os n = thpool_init os 0" if "sint n < 0"
    using that by (simp add: thpool_init_def)
  have zero: "\<exists>p. thpool_init os 0 = Inr (Some p, [])
      \<and> threads p = [] \<and> num_threads_alive p = 0 \<and> num_threads_working p = 0
      \<and> threads_keepalive p = 1
      \<and> front (jobqueue p) = None \<and> rear (jobqueue p) = None \<and> len (jobqueue p) = 0
      \<and> jobqueue_inv h (jobqueue p) []"
    if "malloc_thpool os = Some block" "malloc_has_jobs os = Some sem" "malloc_threads os"
    using that
    by (simp add: thpool_init_def jobqueue_init_def bsem_init_def Let_def
        thread_init_loop_done wait_threads_alive_none jobqueue_inv_def)
  have "thpool_init os n = thpool_init os 0" if "sint n \<le> 0"
  proof (cases "sint n < 0")
    case True
    then show ?thesis by (rule neg)
  next
    case False
    with that have "sint n = sint (0 :: cint)" by simp
    then have "n = 0" by (simp only: sint_cint_inject)
    then show ?thesis by simp
  qed
  with neg zero null show ?thesis by metis
qed


theorem thpool_init_negative_as_zero_witness:
  "sint (- 3 :: cint) < 0
   \<and> thpool_init example_os (- 3) = thpool_init example_os 0
   \<and> (\<exists>p. thpool_init example_os (- 3) = Inr (Some p, [])
         \<and> threads p = [] \<and> num_threads_alive p = 0 \<and> num_threads_working p = 0
         \<and> len (jobqueue p) = 0 \<and> front (jobqueue p) = None)
   \<and> thpool_init example_os 0 = Inr (Some example_pool, [])"
proof -
  have neg: "sint (- 3 :: cint) < 0" "sint (- 3 :: cint) \<le> 0"
    by simp_all
  have allocs: "malloc_thpool example_os = Some example_block"
    "malloc_has_jobs example_os = Some \<lparr>v = 5, mutex_inzed = False, cond_inzed = False\<rparr>"
    "malloc_threads example_os"
    by simp_all
  note t = thpool_init_negative_as_zero [of "- 3" example_os example_block
      "\<lparr>v = 5, mutex_inzed = False, cond_inzed = False\<rparr>" Map.empty]
  from t neg have same: "thpool_init example_os (- 3) = thpool_init example_os 0"
    by blast
  from t neg allocs have pool: "\<exists>p. thpool_init example_os (- 3) = Inr (Some p, [])
      \<and> threads p = [] \<and> num_threads_alive p = 0 \<and> num_threads_working p = 0
      \<and> len (jobqueue p) = 0 \<and> front (jobqueue p) = None"
    by blast
  have zero: "thpool_init example_os 0 = Inr (Some example_pool, [])"
    by (simp add: thpool_init_def jobqueue_init_def bsem_init_def nprocs_def
        thread_init_loop.simps)
  from neg same pool zero show ?thesis by blast
qed

subsection \<open>The affinity cursor\<close>

lemma sint_succ: "sint (n::cint) < sint (m::cint) \<Longrightarrow> sint (n + 1) = sint n + 1"
proof -
  assume less: "sint n < sint m"
  have "sint m < 2 ^ 31" using sint_lt [of m] by simp
  moreover have "- (2 ^ 31) \<le> sint n" using sint_ge [of n] by simp
  ultimately show ?thesis
    using less by (simp add: sint_word_ariths signed_take_bit_int_eq_self)
qed

lemma mod_succ_int:
  assumes "0 < (P::int)"
  shows "(n + 1) mod P = (if P \<le> n mod P + 1 then 0 else n mod P + 1)"
proof -
  have step: "(n + 1) mod P = (n mod P + 1) mod P"
    by (simp add: mod_add_left_eq)
  have lo: "0 \<le> n mod P" and hi: "n mod P < P"
    using assms by simp_all
  show ?thesis
  proof (cases "P \<le> n mod P + 1")
    case True
    with hi have "n mod P + 1 = P" by simp
    with step True show ?thesis by simp
  next
    case False
    with lo have "(n mod P + 1) mod P = n mod P + 1"
      by (intro mod_pos_pos_trivial) simp_all
    with step False show ?thesis by simp
  qed
qed

lemma cursor_step:
  fixes n k P :: cint
  assumes P: "0 < sint P" and n1: "sint (n + 1) = sint n + 1" and k1: "sint (k + 1) = sint k + 1"
    and kk: "sint k = sint n mod sint P"
  shows "sint (if sint P \<le> sint (k + 1) then 0 else k + 1) = sint (n + 1) mod sint P"
proof -
  have "sint (n + 1) mod sint P = (if sint P \<le> sint k + 1 then 0 else sint k + 1)"
    unfolding n1 kk by (rule mod_succ_int [OF P])
  then show ?thesis
    unfolding k1 [symmetric] by (simp only: if_distrib [of sint] sint_0)
qed

lemma upt_cint_step:
  fixes n N :: cint
  assumes "sint n < sint N" "0 \<le> sint n" "sint (n + 1) = sint n + 1"
  shows "[nat (sint n)..<nat (sint N)] = nat (sint n) # [nat (sint (n + 1))..<nat (sint N)]"
proof -
  have "nat (sint n) < nat (sint N)" using assms by simp
  moreover have "nat (sint (n + 1)) = Suc (nat (sint n))" using assms by simp
  ultimately show ?thesis by (simp only: upt_conv_Cons)
qed

lemma cursor_of_nat:
  fixes n k P :: cint
  assumes P: "0 < sint P" and n0: "0 \<le> sint n" and kk: "sint k = sint n mod sint P"
  shows "of_nat (nat (sint n) mod nat (sint P)) = k"
proof -
  have "nat (sint n) mod nat (sint P) = nat (sint n mod sint P)"
    using n0 P by (simp add: nat_mod_distrib)
  also have "\<dots> = nat (sint k)" by (simp only: kk)
  finally have "of_nat (nat (sint n) mod nat (sint P)) = (of_nat (nat (sint k)) :: cint)"
    by (rule arg_cong)
  moreover have "0 \<le> sint k" using P kk by simp
  ultimately show ?thesis by simp
qed

lemma thread_init_loop_cores:
  "0 < sint n_of_threads \<Longrightarrow> 0 \<le> sint n \<Longrightarrow> sint k = sint n mod sint n_of_threads \<Longrightarrow>
   thread_init_loop os num_threads n_of_threads n k = Inr (ts, calls) \<Longrightarrow>
   assigned_cores calls
     = map (\<lambda>i. (of_nat i, of_nat (i mod nat (sint n_of_threads))))
         [nat (sint n)..<nat (sint num_threads)]
   \<and> ts = map (\<lambda>i. \<lparr>id_ = of_nat i\<rparr>) [nat (sint n)..<nat (sint num_threads)]"
proof (induction os num_threads n_of_threads n k arbitrary: ts calls
    rule: thread_init_loop.induct)
  case (1 os num_threads n_of_threads n k)
  let ?P = "sint n_of_threads"
  note P = "1.prems"(1) and n0 = "1.prems"(2) and kk = "1.prems"(3) and run = "1.prems"(4)
  show ?case
  proof (cases "sint n < sint num_threads")
    case False
    with run have "ts = [] \<and> calls = []"
      by (simp add: thread_init_loop.simps)
    with False show ?thesis by simp
  next
    case True
    let ?k' = "if sint n_of_threads \<le> sint (k + 1) then 0 else k + 1"
    have k0: "0 \<le> sint k"
      using kk P by simp
    have kn: "sint k \<le> sint n"
      unfolding kk using n0 by (rule zmod_le_nonneg_dividend)
    have n1: "sint (n + 1) = sint n + 1"
      using True by (rule sint_succ)
    have "sint k < sint num_threads" using kn True by simp
    then have k1: "sint (k + 1) = sint k + 1"
      by (rule sint_succ)
    have k': "sint ?k' = sint (n + 1) mod ?P"
      using P n1 k1 kk by (rule cursor_step)
    have unf: "thread_init_loop os num_threads n_of_threads n k =
        (case thread_init os n k of
           Inl e \<Rightarrow> Inl e
         | Inr (r, t, calls) \<Rightarrow>
             (case thread_init_loop os num_threads n_of_threads (n + 1) ?k' of
                Inl e \<Rightarrow> Inl e
              | Inr (ts, calls') \<Rightarrow> Inr (t # ts, calls @ calls')))"
      by (subst thread_init_loop.simps) (simp only: True if_True)
    let ?t = "\<lparr>id_ = n\<rparr>"
    let ?c = "[Pthread_create n, Stick_this_thread_to_core n k, Pthread_detach n]"
    have ti: "thread_init os n k = Inr (0, ?t, ?c)"
    proof (cases "malloc_thread os n")
      case True
      with k0 show ?thesis by (simp add: thread_init_def)
    next
      case False
      then have "thread_init os n k = Inl Segfault" by (simp add: thread_init_def)
      with unf run show ?thesis by simp
    qed
    obtain ts' calls' where
      rec: "thread_init_loop os num_threads n_of_threads (n + 1) ?k' = Inr (ts', calls')"
      and res: "ts = ?t # ts'" "calls = ?c @ calls'"
    proof (cases "thread_init_loop os num_threads n_of_threads (n + 1) ?k'")
      case (Inl e)
      with unf ti run show ?thesis by simp
    next
      case (Inr pr)
      with unf ti run that show ?thesis by (cases pr) simp
    qed
    have n1': "0 \<le> sint (n + 1)" using n0 n1 by simp
    from "1.IH" [OF True ti refl refl P n1' k' rec]
    have IH: "assigned_cores calls'
        = map (\<lambda>i. (of_nat i, of_nat (i mod nat ?P))) [nat (sint (n + 1))..<nat (sint num_threads)]"
      "ts' = map (\<lambda>i. \<lparr>id_ = of_nat i\<rparr>) [nat (sint (n + 1))..<nat (sint num_threads)]"
      by simp_all
    have upt: "[nat (sint n)..<nat (sint num_threads)]
        = nat (sint n) # [nat (sint (n + 1))..<nat (sint num_threads)]"
      using True n0 n1 by (rule upt_cint_step)
    have idn: "of_nat (nat (sint n)) = n"
      using n0 by simp
    have idk: "of_nat (nat (sint n) mod nat ?P) = k"
      using P n0 kk by (rule cursor_of_nat)
    have cores: "assigned_cores calls = (n, k) # assigned_cores calls'"
      unfolding res by simp
    show ?thesis
      unfolding cores res(1) upt IH list.map idn idk by simp
  qed
qed


lemma wait_threads_alive_threads:
  "wait_threads_alive bs created p0 num_threads = Some p \<Longrightarrow> threads p = threads p0"
  by (induction bs arbitrary: p0) (auto simp: Let_def split: if_splits)

text \<open>
  C8. On a machine with at least one processor, in a pool created by \<open>thpool_init\<close> the
  threads have the ids 0, 1, ... in order, and the core index passed for the thread with
  id \<open>n\<close> is \<open>n mod nprocs()\<close>: the cursor starts at 0, advances by one per thread and
  returns to 0 after the last core.
\<close>

theorem affinity_round_robin:
  assumes procs: "0 < sint (nprocs os)"
    and created: "thpool_init os num_threads = Inr (Some p, calls)"
  shows "assigned_cores calls
           = map (\<lambda>n. (of_nat n, of_nat (n mod nat (sint (nprocs os)))))
               [0..<nat (sint num_threads)]
         \<and> threads p = map (\<lambda>n. \<lparr>id_ = of_nat n\<rparr>) [0..<nat (sint num_threads)]"
proof -
  let ?N = "if sint num_threads < 0 then 0 else num_threads"
  from created obtain ts p2 where
    loop: "thread_init_loop os ?N (nprocs os) 0 0 = Inr (ts, calls)"
    and wait: "wait_threads_alive (begun os) (length ts) (p2\<lparr>threads := ts\<rparr>) ?N = Some p"
    by (auto simp: thpool_init_def Let_def split: option.splits sum.splits if_splits)
  have "sint (0 :: cint) = sint (0 :: cint) mod sint (nprocs os)"
    by simp
  from thread_init_loop_cores [OF procs _ this loop]
  have cores: "assigned_cores calls
      = map (\<lambda>n. (of_nat n, of_nat (n mod nat (sint (nprocs os))))) [0..<nat (sint ?N)]"
    and ts: "ts = map (\<lambda>n. \<lparr>id_ = of_nat n\<rparr>) [0..<nat (sint ?N)]"
    by simp_all
  have N: "nat (sint ?N) = nat (sint num_threads)"
    by simp
  from wait_threads_alive_threads [OF wait] have "threads p = ts"
    by simp
  with cores ts show ?thesis
    unfolding N by simp
qed


theorem affinity_round_robin_witness:
  "0 < sint (nprocs example_os)
   \<and> (\<exists>p calls. thpool_init example_os 5 = Inr (Some p, calls)
         \<and> assigned_cores calls = [(0, 0), (1, 1), (2, 0), (3, 1), (4, 0)]
         \<and> threads p = [\<lparr>id_ = 0\<rparr>, \<lparr>id_ = 1\<rparr>, \<lparr>id_ = 2\<rparr>, \<lparr>id_ = 3\<rparr>, \<lparr>id_ = 4\<rparr>]
         \<and> num_threads_alive p = 5)"
proof -
  have procs: "0 < sint (nprocs example_os)"
    by (simp add: nprocs_def)
  have "\<exists>p calls. thpool_init example_os 5 = Inr (Some p, calls) \<and> num_threads_alive p = 5"
    by (simp add: thpool_init_def jobqueue_init_def bsem_init_def nprocs_def
        thread_init_loop.simps thread_init_def)
  then obtain p calls where run: "thpool_init example_os 5 = Inr (Some p, calls)"
    and alive: "num_threads_alive p = 5"
    by blast
  have upt: "[0..<nat (sint (5 :: cint))] = [0, 1, 2, 3, 4]"
    by (simp add: upt_rec)
  from affinity_round_robin [OF procs run]
  have "assigned_cores calls = [(0, 0), (1, 1), (2, 0), (3, 1), (4, 0)]"
    "threads p = [\<lparr>id_ = 0\<rparr>, \<lparr>id_ = 1\<rparr>, \<lparr>id_ = 2\<rparr>, \<lparr>id_ = 3\<rparr>, \<lparr>id_ = 4\<rparr>]"
    unfolding upt by (simp_all add: nprocs_def)
  with procs run alive show ?thesis by blast
qed


end
